theory Spec2Isabelle
  imports Main
begin

section \<open>Python and NumPy primitives used by the iterator\<close>

text \<open>
  The exceptions that \<^verbatim>\<open>lgdo/lh5/iterator.py\<close> raises itself (\<^verbatim>\<open>ValueError\<close>,
  \<^verbatim>\<open>RuntimeError\<close>, \<^verbatim>\<open>StopIteration\<close>) or triggers in the interpreter
  (\<^verbatim>\<open>IndexError\<close> of an index out of range, \<^verbatim>\<open>AttributeError\<close> of a method that
  does not exist, \<^verbatim>\<open>TypeError\<close> of an operand that is \<^verbatim>\<open>None\<close>).
\<close>

datatype py_error =
  ValueError | IndexError | AttributeError | TypeError | RuntimeError | StopIteration

text \<open>\<^verbatim>\<open>np.iinfo("q").max\<close>: the largest signed 64-bit integer, the "unknown" mark of the
  two cumulative arrays.\<close>

definition q_max :: int where
  "q_max = 9223372036854775807"

text \<open>\<^verbatim>\<open>xs[i]\<close>: a negative index counts from the end, an index outside the list raises.\<close>

definition py_getitem :: "'a list \<Rightarrow> int \<Rightarrow> py_error + 'a" where
  "py_getitem xs i =
     (if 0 \<le> i \<and> i < int (length xs) then Inr (xs ! nat i)
      else if i < 0 \<and> - int (length xs) \<le> i then Inr (xs ! nat (int (length xs) + i))
      else Inl IndexError)"

text \<open>\<^verbatim>\<open>xs[i] = v\<close> with the same index rule.\<close>

definition py_setitem :: "'a list \<Rightarrow> int \<Rightarrow> 'a \<Rightarrow> py_error + 'a list" where
  "py_setitem xs i v =
     (if 0 \<le> i \<and> i < int (length xs) then Inr (xs[nat i := v])
      else if i < 0 \<and> - int (length xs) \<le> i then Inr (xs[nat (int (length xs) + i) := v])
      else Inl IndexError)"

text \<open>The bound of a slice \<^verbatim>\<open>xs[a:b]\<close>, clipped to the list as Python does.\<close>

definition slice_bound :: "nat \<Rightarrow> int \<Rightarrow> nat" where
  "slice_bound len a = (if a < 0 then nat (int len + a) else min (nat a) len)"

definition py_slice :: "'a list \<Rightarrow> int \<Rightarrow> int \<Rightarrow> 'a list" where
  "py_slice xs a b =
     take (slice_bound (length xs) b - slice_bound (length xs) a)
       (drop (slice_bound (length xs) a) xs)"

text \<open>
  \<^verbatim>\<open>arr[a:b] = vs\<close> on a NumPy array: the value must have the length of the slice, or
  length one (it is then broadcast); anything else raises \<^verbatim>\<open>ValueError\<close>.
\<close>

definition np_slice_assign :: "'a list \<Rightarrow> int \<Rightarrow> int \<Rightarrow> 'a list \<Rightarrow> py_error + 'a list" where
  "np_slice_assign xs a b vs =
     (let lo = slice_bound (length xs) a;
          m = slice_bound (length xs) b - lo
      in if length vs = m then Inr (take lo xs @ vs @ drop (lo + m) xs)
         else if length vs = 1 then Inr (take lo xs @ replicate m (hd vs) @ drop (lo + m) xs)
         else Inl ValueError)"

text \<open>
  \<^verbatim>\<open>np.searchsorted(a, v)\<close> and \<^verbatim>\<open>np.searchsorted(a, v, "right")\<close> on a sorted array:
  the number of leading elements below \<open>v\<close>, respectively not above \<open>v\<close>.
\<close>

definition searchsorted :: "int list \<Rightarrow> int \<Rightarrow> int" where
  "searchsorted a v = int (length (takeWhile (\<lambda>x. x < v) a))"

definition searchsorted_right :: "int list \<Rightarrow> int \<Rightarrow> int" where
  "searchsorted_right a v = int (length (takeWhile (\<lambda>x. x \<le> v) a))"

text \<open>\<^verbatim>\<open>np.nonzero(mask)[0]\<close>: the positions that hold \<^verbatim>\<open>True\<close>.\<close>

definition nonzero :: "bool list \<Rightarrow> int list" where
  "nonzero bs = map int (filter (\<lambda>i. bs ! i) [0..<length bs])"

text \<open>
  \<^verbatim>\<open>np.linspace(0, n_files, n_workers + 1).astype("int")[k]\<close>. The source computes the
  points in double precision and truncates; the model takes the floor of the exact
  quotient, which is the same number for the file counts a double represents exactly.
\<close>

definition linspace_int :: "nat \<Rightarrow> nat \<Rightarrow> nat \<Rightarrow> int" where
  "linspace_int n_files n_workers k =
     (if k = n_workers then int n_files else (int k * int n_files) div int n_workers)"

section \<open>The collaborators: the LH5 store and the row buffer\<close>

text \<open>
  The files on disk, as \<^verbatim>\<open>LH5Store\<close> sees them: the rows of every table (by group and
  file), the names of its columns, the row a grown buffer is padded with, and the files a
  path pattern expands to (\<^verbatim>\<open>expand_path\<close> of \<^verbatim>\<open>lgdo/lh5/utils.py\<close>).
\<close>

record 'r lh5_store =
  table_rows :: "string \<Rightarrow> string \<Rightarrow> 'r list"
  table_fields :: "string \<Rightarrow> string \<Rightarrow> string list"
  blank_row :: 'r
  expand_path :: "string \<Rightarrow> string list"

text \<open>
  The row buffer (an LGDO table): the names of the columns it exposes and its rows.
\<close>

record 'r lgdo =
  columns :: "string list"
  rows :: "'r list"
  pad :: 'r

text \<open>What the iterator asks of its collaborators, and the warning it logs: kept in the
  iterator's \<open>trace\<close> so that the calls can be counted.\<close>

datatype event =
    ReadNRows string string
  | ReadRows string string int int
  | Warning int

text \<open>Modelled from the spec: the buffer interface \<^verbatim>\<open>length()\<close>, \<^verbatim>\<open>resize(n)\<close> (truncate
  or grow) and \<^verbatim>\<open>join(other_buffer)\<close> (merge the columns of another buffer) of the
  row-container type, which lives in \<^verbatim>\<open>lgdo/types\<close>.\<close>

definition buf_len :: "'r lgdo \<Rightarrow> int" where
  "buf_len b = int (length (rows b))"

definition resize :: "'r lgdo \<Rightarrow> int \<Rightarrow> 'r lgdo" where
  "resize b n = b\<lparr>rows := take (nat n) (rows b) @ replicate (nat n - length (rows b)) (pad b)\<rparr>"

definition join :: "'r lgdo \<Rightarrow> 'r lgdo \<Rightarrow> 'r lgdo" where
  "join b other = b\<lparr>columns := columns b @ filter (\<lambda>c. c \<notin> set (columns b)) (remdups (columns other))\<rparr>"

text \<open>Modelled from the spec: \<^verbatim>\<open>row_count(group, file)\<close>, the total physical rows in a
  group of a file (\<^verbatim>\<open>LH5Store.read_n_rows\<close>).\<close>

definition read_n_rows :: "'r lh5_store \<Rightarrow> string \<Rightarrow> string \<Rightarrow> int" where
  "read_n_rows st g f = int (length (table_rows st g f))"

text \<open>Modelled from the spec: \<^verbatim>\<open>allocate_buffer(group, file, capacity, field_mask)\<close>, a
  capacity-sized row container (\<^verbatim>\<open>LH5Store.get_buffer\<close>).\<close>

definition get_buffer :: "'r lh5_store \<Rightarrow> string \<Rightarrow> string \<Rightarrow> int \<Rightarrow> 'r lgdo" where
  "get_buffer st g f n =
     \<lparr>columns = table_fields st g f, rows = replicate (nat n) (blank_row st), pad = blank_row st\<rparr>"

text \<open>Modelled from the spec: \<^verbatim>\<open>read_rows(group, file, start_row, count, index_list,
  field_mask, target_buffer, target_offset)\<close> (\<^verbatim>\<open>LH5Store.read\<close>): fill the target buffer
  from the offset on with up to \<open>count\<close> rows beginning at \<open>start_row\<close>, taking the rows
  of the index list (those from \<open>start_row\<close> on that the table has) in place of a
  contiguous range when one is given.\<close>

definition store_read ::
  "'r lh5_store \<Rightarrow> string \<Rightarrow> string \<Rightarrow> int \<Rightarrow> int \<Rightarrow> int list option \<Rightarrow> 'r lgdo \<Rightarrow> int \<Rightarrow> 'r lgdo" where
  "store_read st g f start_row n_rows idx obj_buf obj_buf_start =
     (let tab = table_rows st g f;
          sel = (case idx of
                   None \<Rightarrow> drop (nat start_row) tab
                 | Some ix \<Rightarrow>
                     map (\<lambda>i. tab ! nat i)
                       (filter (\<lambda>i. start_row \<le> i \<and> 0 \<le> i \<and> i < int (length tab)) ix))
      in obj_buf\<lparr>rows := take (nat obj_buf_start) (rows obj_buf) @ take (nat n_rows) sel\<rparr>)"

section \<open>The iterator\<close>

text \<open>
  The attributes of an \<^verbatim>\<open>LH5Iterator\<close> but its friend. \<open>local_entry_list\<close> is \<open>None\<close>
  without a selection, else one entry per file, itself \<open>None\<close> until the file's list
  has been derived from the global list. The field mask is handed to the store unread and
  is left out. \<open>trace\<close> is not an attribute of the source: it records, in order, the
  calls of \<^verbatim>\<open>self.lh5_st\<close> and the warnings logged.
\<close>

record 'r iter_core =
  lh5_files :: "string list"
  groups :: "string list"
  file_map :: "int list"
  entry_map :: "int list"
  buffer_len :: int
  lh5_buffer :: "'r lgdo"
  i_start :: int
  n_entries :: "int option"
  current_i_entry :: int
  next_i_entry :: int
  local_entry_list :: "int list option list option"
  global_entry_list :: "int list option"
  trace :: "event list"

datatype 'r lh5_iterator = LH5Iterator (core: "'r iter_core") (friend: "'r lh5_iterator option")

subsection \<open>Cumulative file lengths\<close>

text \<open>Where the resolution of a cumulative array resumes (lines 269 and 270, 296 and
  297): the first index that holds the mark, and the total known before it.\<close>

definition first_unknown :: "int list \<Rightarrow> int" where
  "first_unknown m = searchsorted m q_max"

definition known_total :: "int list \<Rightarrow> int" where
  "known_total m = (if first_unknown m > 0 then m ! nat (first_unknown m - 1) else 0)"

text \<open>The loop of \<^verbatim>\<open>_get_file_cumlen\<close>: \<^verbatim>\<open>for i in range(i, stop)\<close>.\<close>

function cumlen_loop ::
  "'r lh5_store \<Rightarrow> 'r iter_core \<Rightarrow> int \<Rightarrow> int \<Rightarrow> int \<Rightarrow> 'r iter_core \<times> (py_error + int)" where
  "cumlen_loop st it i stop fcl =
     (if i < stop then
        (case py_getitem (groups it) i of
           Inl e \<Rightarrow> (it, Inl e)
         | Inr g \<Rightarrow>
             (case py_getitem (lh5_files it) i of
                Inl e \<Rightarrow> (it, Inl e)
              | Inr f \<Rightarrow>
                  cumlen_loop st
                    (it\<lparr>file_map := (file_map it)[nat i := fcl + read_n_rows st g f],
                        trace := trace it @ [ReadNRows g f]\<rparr>)
                    (i + 1) stop (fcl + read_n_rows st g f)))
      else (it, Inr fcl))"
  by pat_completeness auto
termination
  by (relation "measure (\<lambda>(st, it, i, stop, fcl). nat (stop - i))") auto

declare cumlen_loop.simps [simp del]

definition get_file_cumlen ::
  "'r lh5_store \<Rightarrow> 'r iter_core \<Rightarrow> int \<Rightarrow> 'r iter_core \<times> (py_error + int)" where
  "get_file_cumlen st it i_file =
     (if i_file < 0 then (it, Inr 0)
      else
        (case py_getitem (file_map it) i_file of
           Inl e \<Rightarrow> (it, Inl e)
         | Inr fcl \<Rightarrow>
             if fcl = q_max then
               cumlen_loop st it (first_unknown (file_map it)) (i_file + 1)
                 (known_total (file_map it))
             else (it, Inr fcl)))"

subsection \<open>Cumulative entries and per-file entry lists\<close>

text \<open>The count of \<^verbatim>\<open>_get_file_cumentries\<close> for one file: \<open>n\<close> after the body of the loop,
  and whether the warning is logged.\<close>

definition entries_out_of_range :: "int list option \<Rightarrow> int \<Rightarrow> bool" where
  "entries_out_of_range elist fcl =
     (case elist of None \<Rightarrow> False | Some el \<Rightarrow> length el > 0 \<and> last el \<ge> fcl)"

definition count_entries :: "int list option \<Rightarrow> int \<Rightarrow> int \<Rightarrow> int" where
  "count_entries elist fcl n =
     (case elist of
        None \<Rightarrow> fcl
      | Some el \<Rightarrow>
          if length el > 0 \<and> last el \<ge> fcl
          then n + int (length el) + (searchsorted_right el fcl - int (length el))
          else n + int (length el))"

text \<open>The local list of a file, from the global list (\<^verbatim>\<open>get_file_entrylist\<close>, lines
  326 and 327).\<close>

definition derive_entrylist :: "int list \<Rightarrow> int \<Rightarrow> int \<Rightarrow> int \<Rightarrow> int list" where
  "derive_entrylist gl f_start f_end i_lo =
     map (\<lambda>x. x - f_start) (py_slice gl i_lo (searchsorted_right gl f_end))"

function get_file_cumentries ::
    "'r lh5_store \<Rightarrow> 'r iter_core \<Rightarrow> int \<Rightarrow> 'r iter_core \<times> (py_error + int)"
  and cumentries_loop ::
    "'r lh5_store \<Rightarrow> 'r iter_core \<Rightarrow> int \<Rightarrow> int \<Rightarrow> int \<Rightarrow> 'r iter_core \<times> (py_error + int)"
  and get_file_entrylist ::
    "'r lh5_store \<Rightarrow> 'r iter_core \<Rightarrow> int \<Rightarrow> 'r iter_core \<times> (py_error + int list option)" where
  "get_file_cumentries st it i_file =
     (if i_file < 0 then (it, Inr 0)
      else
        (case py_getitem (entry_map it) i_file of
           Inl e \<Rightarrow> (it, Inl e)
         | Inr n \<Rightarrow>
             if n = q_max then
               cumentries_loop st it (first_unknown (entry_map it)) (i_file + 1)
                 (known_total (entry_map it))
             else (it, Inr n)))"
| "cumentries_loop st it i stop n =
     (if i < stop then
        (case get_file_entrylist st it i of
           (it1, Inl e) \<Rightarrow> (it1, Inl e)
         | (it1, Inr elist) \<Rightarrow>
             (case get_file_cumlen st it1 i of
                (it2, Inl e) \<Rightarrow> (it2, Inl e)
              | (it2, Inr fcl) \<Rightarrow>
                  cumentries_loop st
                    (it2\<lparr>entry_map := (entry_map it2)[nat i := count_entries elist fcl n],
                         trace := trace it2 @ (if entries_out_of_range elist fcl then [Warning i] else [])\<rparr>)
                    (i + 1) stop (count_entries elist fcl n)))
      else (it, Inr n))"
| "get_file_entrylist st it i_file =
     (case local_entry_list it of
        None \<Rightarrow> (it, Inr None)
      | Some lel \<Rightarrow>
          (case py_getitem lel i_file of
             Inl e \<Rightarrow> (it, Inl e)
           | Inr (Some elist) \<Rightarrow> (it, Inr (Some elist))
           | Inr None \<Rightarrow>
               (case get_file_cumlen st it (i_file - 1) of
                  (it1, Inl e) \<Rightarrow> (it1, Inl e)
                | (it1, Inr f_start) \<Rightarrow>
                    (case get_file_cumlen st it1 i_file of
                       (it2, Inl e) \<Rightarrow> (it2, Inl e)
                     | (it2, Inr f_end) \<Rightarrow>
                         (case get_file_cumentries st it2 (i_file - 1) of
                            (it3, Inl e) \<Rightarrow> (it3, Inl e)
                          | (it3, Inr i_lo) \<Rightarrow>
                              (case global_entry_list it3 of
                                 None \<Rightarrow> (it3, Inl ValueError)
                               | Some gl \<Rightarrow>
                                   (case py_setitem (the (local_entry_list it3)) i_file
                                           (Some (derive_entrylist gl f_start f_end i_lo)) of
                                      Inl e \<Rightarrow> (it3, Inl e)
                                    | Inr lel' \<Rightarrow>
                                        (it3\<lparr>local_entry_list := Some lel'\<rparr>,
                                         Inr (Some (derive_entrylist gl f_start f_end i_lo))))))))))"
  by pat_completeness auto
termination
  by (relation "inv_image (less_than <*lex*> less_than)
        (\<lambda>x. case x of
           Inl (st, it, i_file) \<Rightarrow> (if i_file < 0 then 0 else 3 * nat i_file + 3, 0)
         | Inr (Inl (st, it, i, stop, n)) \<Rightarrow> (3 * nat (stop - 1) + 2, nat (stop - i))
         | Inr (Inr (st, it, i_file)) \<Rightarrow> (3 * nat i_file + 1, 0))") auto

declare get_file_cumentries.simps [simp del]
declare cumentries_loop.simps [simp del]
declare get_file_entrylist.simps [simp del]


text \<open>
  What resolving the cumulative arrays leaves alone: the dataset, the buffer, the cursor,
  the global list, and the lengths of the arrays and of the list of local lists. The loops
  of \<^verbatim>\<open>read\<close> test these lengths, and stop because they are kept.
\<close>

definition unchanged_but_maps :: "'r iter_core \<Rightarrow> 'r iter_core \<Rightarrow> bool" where
  "unchanged_but_maps it it' \<longleftrightarrow>
     lh5_files it' = lh5_files it \<and> groups it' = groups it \<and>
     length (file_map it') = length (file_map it) \<and>
     length (entry_map it') = length (entry_map it) \<and>
     buffer_len it' = buffer_len it \<and> lh5_buffer it' = lh5_buffer it \<and>
     i_start it' = i_start it \<and> n_entries it' = n_entries it \<and>
     current_i_entry it' = current_i_entry it \<and> next_i_entry it' = next_i_entry it \<and>
     global_entry_list it' = global_entry_list it \<and>
     (local_entry_list it' = None \<longleftrightarrow> local_entry_list it = None) \<and>
     length (the (local_entry_list it')) = length (the (local_entry_list it))"

lemma unchanged_refl [simp]: "unchanged_but_maps it it"
  by (simp add: unchanged_but_maps_def)

lemma unchanged_trans:
  "unchanged_but_maps a b \<Longrightarrow> unchanged_but_maps b c \<Longrightarrow> unchanged_but_maps a c"
  by (simp add: unchanged_but_maps_def)

lemma py_setitem_length: "py_setitem xs i v = Inr ys \<Longrightarrow> length ys = length xs"
  by (auto simp: py_setitem_def split: if_splits)

lemma cumlen_loop_frame: "unchanged_but_maps it (fst (cumlen_loop st it i stop fcl))"
proof (induction st it i stop fcl rule: cumlen_loop.induct)
  case (1 st it i stop fcl)
  show ?case
  proof (cases "i < stop")
    case False
    then show ?thesis by (simp add: cumlen_loop.simps [of st it i stop fcl])
  next
    case True
    show ?thesis
    proof (cases "py_getitem (groups it) i")
      case (Inl e)
      with True show ?thesis by (simp add: cumlen_loop.simps [of st it i stop fcl])
    next
      case g: (Inr g)
      show ?thesis
      proof (cases "py_getitem (lh5_files it) i")
        case (Inl e)
        with True g show ?thesis by (simp add: cumlen_loop.simps [of st it i stop fcl])
      next
        case f: (Inr f)
        from "1.IH" [OF True g f] True g f show ?thesis
          by (simp add: cumlen_loop.simps [of st it i stop fcl] unchanged_but_maps_def)
      qed
    qed
  qed
qed

lemma get_file_cumlen_frame: "unchanged_but_maps it (fst (get_file_cumlen st it i))"
  by (simp add: get_file_cumlen_def cumlen_loop_frame split: sum.splits)

lemma get_file_cumlen_frame':
  "get_file_cumlen st it i = (it', r) \<Longrightarrow> unchanged_but_maps it it'"
  using get_file_cumlen_frame [of it st i] by simp

lemma cumentries_frame:
  "unchanged_but_maps it (fst (get_file_cumentries st it i_file))"
  "unchanged_but_maps it (fst (cumentries_loop st it i stop n))"
  "unchanged_but_maps it (fst (get_file_entrylist st it i_file))"
proof (induction st it i_file and st it i stop n and st it i_file
    rule: get_file_cumentries_cumentries_loop_get_file_entrylist.induct)
  case (1 st it i_file)
  then show ?case
    by (simp add: get_file_cumentries.simps [of st it i_file] split: sum.splits)
next
  case (2 st it i stop n)
  show ?case
  proof (cases "i < stop")
    case False
    then show ?thesis by (simp add: cumentries_loop.simps [of st it i stop n])
  next
    case True
    obtain it1 r1 where e1: "get_file_entrylist st it i = (it1, r1)"
      by (cases "get_file_entrylist st it i")
    from "2.IH"(1) [OF True] e1 have u1: "unchanged_but_maps it it1" by simp
    show ?thesis
    proof (cases r1)
      case (Inl e)
      with True e1 u1 show ?thesis by (simp add: cumentries_loop.simps [of st it i stop n])
    next
      case el: (Inr elist)
      obtain it2 r2 where e2: "get_file_cumlen st it1 i = (it2, r2)"
        by (cases "get_file_cumlen st it1 i")
      from e2 have u2: "unchanged_but_maps it1 it2" by (rule get_file_cumlen_frame')
      show ?thesis
      proof (cases r2)
        case (Inl e)
        with True e1 el e2 u1 u2 show ?thesis
          by (auto simp add: cumentries_loop.simps [of st it i stop n] intro: unchanged_trans)
      next
        case fcl: (Inr fcl)
        from "2.IH"(2) [OF True e1 [symmetric, unfolded el] refl e2 [symmetric, unfolded fcl] refl]
          True e1 el e2 fcl u1 u2 show ?thesis
          by (simp add: cumentries_loop.simps [of st it i stop n] unchanged_but_maps_def)
      qed
    qed
  qed
next
  case (3 st it i_file)
  show ?case
  proof (cases "local_entry_list it")
    case None
    then show ?thesis by (simp add: get_file_entrylist.simps [of st it i_file])
  next
    case lel: (Some lel)
    show ?thesis
    proof (cases "py_getitem lel i_file")
      case (Inl e)
      with lel show ?thesis by (simp add: get_file_entrylist.simps [of st it i_file])
    next
      case (Inr el)
      show ?thesis
      proof (cases el)
        case (Some elist)
        with lel Inr show ?thesis by (simp add: get_file_entrylist.simps [of st it i_file])
      next
        case None
        note gi = Inr [unfolded None]
        obtain it1 r1 where e1: "get_file_cumlen st it (i_file - 1) = (it1, r1)"
          by (cases "get_file_cumlen st it (i_file - 1)")
        from e1 have u1: "unchanged_but_maps it it1" by (rule get_file_cumlen_frame')
        show ?thesis
        proof (cases r1)
          case (Inl e)
          with lel gi e1 u1 show ?thesis by (simp add: get_file_entrylist.simps [of st it i_file])
        next
          case r1: (Inr f_start)
          obtain it2 r2 where e2: "get_file_cumlen st it1 i_file = (it2, r2)"
            by (cases "get_file_cumlen st it1 i_file")
          from e2 have u2: "unchanged_but_maps it1 it2" by (rule get_file_cumlen_frame')
          from u1 u2 have u12: "unchanged_but_maps it it2" by (rule unchanged_trans)
          show ?thesis
          proof (cases r2)
            case (Inl e)
            with lel gi e1 r1 e2 u12 show ?thesis
              by (simp add: get_file_entrylist.simps [of st it i_file])
          next
            case r2: (Inr f_end)
            obtain it3 r3 where e3: "get_file_cumentries st it2 (i_file - 1) = (it3, r3)"
              by (cases "get_file_cumentries st it2 (i_file - 1)")
            from "3.IH" [OF lel gi refl e1 [symmetric, unfolded r1] refl e2 [symmetric, unfolded r2] refl] e3
            have "unchanged_but_maps it2 it3" by simp
            with u12 have u3: "unchanged_but_maps it it3" by (rule unchanged_trans)
            show ?thesis
            proof (cases r3)
              case (Inl e)
              with lel gi e1 r1 e2 r2 e3 u3 show ?thesis
                by (simp add: get_file_entrylist.simps [of st it i_file])
            next
              case r3: (Inr i_lo)
              show ?thesis
              proof (cases "global_entry_list it3")
                case None
                with lel gi e1 r1 e2 r2 e3 r3 u3 show ?thesis
                  by (simp add: get_file_entrylist.simps [of st it i_file])
              next
                case gl: (Some gl)
                show ?thesis
                proof (cases "py_setitem (the (local_entry_list it3)) i_file
                    (Some (derive_entrylist gl f_start f_end i_lo))")
                  case (Inl e)
                  with lel gi e1 r1 e2 r2 e3 r3 gl u3 show ?thesis
                    by (simp add: get_file_entrylist.simps [of st it i_file])
                next
                  case (Inr lel')
                  from Inr have len: "length lel' = length (the (local_entry_list it3))"
                    by (rule py_setitem_length)
                  from Inr lel gi e1 r1 e2 r2 e3 r3 gl
                  have "fst (get_file_entrylist st it i_file) = it3\<lparr>local_entry_list := Some lel'\<rparr>"
                    by (simp add: get_file_entrylist.simps [of st it i_file])
                  with len u3 lel show ?thesis
                    by (simp add: unchanged_but_maps_def)
                qed
              qed
            qed
          qed
        qed
      qed
    qed
  qed
qed


lemma get_file_entrylist_frame':
  "get_file_entrylist st it i = (it', r) \<Longrightarrow> unchanged_but_maps it it'"
  using cumentries_frame(3) [of it st i] by simp


lemma get_file_cumlen_frame_sym:
  "(it', r) = get_file_cumlen st it i \<Longrightarrow> unchanged_but_maps it it'"
  using get_file_cumlen_frame [of it st i] by (simp add: fst_def split: prod.splits)

lemma get_file_cumentries_frame_sym:
  "(it', r) = get_file_cumentries st it i \<Longrightarrow> unchanged_but_maps it it'"
  using cumentries_frame(1) [of it st i] by (simp add: fst_def split: prod.splits)

lemma get_file_entrylist_frame_sym:
  "(it', r) = get_file_entrylist st it i \<Longrightarrow> unchanged_but_maps it it'"
  using cumentries_frame(3) [of it st i] by (simp add: fst_def split: prod.splits)

subsection \<open>Length and the global entry list\<close>

text \<open>\<^verbatim>\<open>__len__\<close>.\<close>

definition len :: "'r lh5_store \<Rightarrow> 'r iter_core \<Rightarrow> 'r iter_core \<times> (py_error + int)" where
  "len st it =
     (if length (entry_map it) > 0
      then get_file_cumentries st it (int (length (lh5_files it)) - 1)
      else (it, Inr 0))"

text \<open>The loop of \<^verbatim>\<open>get_global_entrylist\<close> over the files, from \<open>i_file\<close> on.\<close>

function global_entrylist_loop ::
  "'r lh5_store \<Rightarrow> 'r iter_core \<Rightarrow> int \<Rightarrow> 'r iter_core \<times> (py_error + unit)" where
  "global_entrylist_loop st it i_file =
     (if i_file < int (length (lh5_files it)) then
        (case get_file_cumentries st it (i_file - 1) of
           (it1, Inl e) \<Rightarrow> (it1, Inl e)
         | (it1, Inr i_lo) \<Rightarrow>
             (case get_file_cumentries st it1 i_file of
                (it2, Inl e) \<Rightarrow> (it2, Inl e)
              | (it2, Inr i_hi) \<Rightarrow>
                  (case get_file_cumlen st it2 (i_file - 1) of
                     (it3, Inl e) \<Rightarrow> (it3, Inl e)
                   | (it3, Inr f_start) \<Rightarrow>
                       (case get_file_entrylist st it3 i_file of
                          (it4, Inl e) \<Rightarrow> (it4, Inl e)
                        | (it4, Inr None) \<Rightarrow> (it4, Inl TypeError)
                        | (it4, Inr (Some el)) \<Rightarrow>
                            (case global_entry_list it4 of
                               None \<Rightarrow> (it4, Inl TypeError)
                             | Some gl \<Rightarrow>
                                 (case np_slice_assign gl i_lo i_hi (map (\<lambda>x. x + f_start) el) of
                                    Inl e \<Rightarrow> (it4, Inl e)
                                  | Inr gl' \<Rightarrow>
                                      global_entrylist_loop st
                                        (it4\<lparr>global_entry_list := Some gl'\<rparr>) (i_file + 1)))))))
      else (it, Inr ()))"
  by pat_completeness auto
termination
  apply (relation "measure (\<lambda>(st, it, i_file). nat (int (length (lh5_files it)) - i_file))")
   apply simp
  apply (auto dest!: get_file_cumentries_frame_sym get_file_cumlen_frame_sym
      get_file_entrylist_frame_sym simp: unchanged_but_maps_def)
  done

declare global_entrylist_loop.simps [simp del]

text \<open>\<^verbatim>\<open>get_global_entrylist\<close>: \<^verbatim>\<open>np.zeros\<close> of a negative length raises.\<close>

definition get_global_entrylist ::
  "'r lh5_store \<Rightarrow> 'r iter_core \<Rightarrow> 'r iter_core \<times> (py_error + int list option)" where
  "get_global_entrylist st it =
     (if global_entry_list it = None \<and> local_entry_list it \<noteq> None then
        (case len st it of
           (it1, Inl e) \<Rightarrow> (it1, Inl e)
         | (it1, Inr k) \<Rightarrow>
             if k < 0 then (it1, Inl ValueError)
             else
               (case global_entrylist_loop st
                       (it1\<lparr>global_entry_list := Some (replicate (nat k) 0)\<rparr>) 0 of
                  (it2, Inl e) \<Rightarrow> (it2, Inl e)
                | (it2, Inr u) \<Rightarrow> (it2, Inr (global_entry_list it2))))
      else (it, Inr (global_entry_list it)))"


subsection \<open>Reading a block\<close>

text \<open>The search of \<^verbatim>\<open>read\<close> (lines 360 to 363): step over the files whose cumulative
  entries do not reach \<open>i_entry\<close>.\<close>

function find_file ::
  "'r lh5_store \<Rightarrow> 'r iter_core \<Rightarrow> int \<Rightarrow> int \<Rightarrow> 'r iter_core \<times> (py_error + int)" where
  "find_file st it i_file i_entry =
     (if i_file < int (length (lh5_files it)) then
        (case get_file_cumentries st it i_file of
           (it1, Inl e) \<Rightarrow> (it1, Inl e)
         | (it1, Inr c) \<Rightarrow>
             if i_entry \<ge> c then find_file st it1 (i_file + 1) i_entry
             else (it1, Inr i_file))
      else (it, Inr i_file))"
  by pat_completeness auto
termination
  apply (relation "measure (\<lambda>(st, it, i_file, i_entry). nat (int (length (lh5_files it)) - i_file))")
   apply simp
  apply (auto dest!: get_file_cumentries_frame_sym simp: unchanged_but_maps_def)
  done

declare find_file.simps [simp del]

text \<open>Line 377 of \<^verbatim>\<open>read\<close>: the row the store starts at.\<close>

definition start_row :: "int list option \<Rightarrow> int \<Rightarrow> py_error + int" where
  "start_row local_idx local_i_entry =
     (case local_idx of None \<Rightarrow> Inr local_i_entry | Some ix \<Rightarrow> py_getitem ix local_i_entry)"

text \<open>Lines 378 to 387: the call of the store, which appends to the buffer.\<close>

definition read_into_buffer ::
  "'r lh5_store \<Rightarrow> 'r iter_core \<Rightarrow> string \<Rightarrow> string \<Rightarrow> int \<Rightarrow> int \<Rightarrow> int list option \<Rightarrow> 'r iter_core" where
  "read_into_buffer st it g f i_local n local_idx =
     it\<lparr>lh5_buffer :=
          store_read st g f i_local (n - buf_len (lh5_buffer it)) local_idx
            (lh5_buffer it) (buf_len (lh5_buffer it)),
        trace := trace it @ [ReadRows g f i_local (n - buf_len (lh5_buffer it))]\<rparr>"

text \<open>The loop of \<^verbatim>\<open>read\<close> that fills the buffer (lines 369 to 390), one call of the
  store for each file it does not skip.\<close>

function fill_buffer ::
  "'r lh5_store \<Rightarrow> 'r iter_core \<Rightarrow> int \<Rightarrow> int \<Rightarrow> int \<Rightarrow> 'r iter_core \<times> (py_error + unit)" where
  "fill_buffer st it i_file local_i_entry n =
     (if buf_len (lh5_buffer it) < n \<and> i_file < int (length (file_map it)) then
        (case get_file_entrylist st it i_file of
           (it1, Inl e) \<Rightarrow> (it1, Inl e)
         | (it1, Inr local_idx) \<Rightarrow>
             if local_idx = Some [] then fill_buffer st it1 (i_file + 1) 0 n
             else
               (case start_row local_idx local_i_entry of
                  Inl e \<Rightarrow> (it1, Inl e)
                | Inr i_local \<Rightarrow>
                    (case py_getitem (groups it1) i_file of
                       Inl e \<Rightarrow> (it1, Inl e)
                     | Inr g \<Rightarrow>
                         (case py_getitem (lh5_files it1) i_file of
                            Inl e \<Rightarrow> (it1, Inl e)
                          | Inr f \<Rightarrow>
                              fill_buffer st (read_into_buffer st it1 g f i_local n local_idx)
                                (i_file + 1) 0 n))))
      else (it, Inr ()))"
  by pat_completeness auto
termination
  apply (relation "measure (\<lambda>(st, it, i_file, l, n). nat (int (length (file_map it)) - i_file))")
    apply simp
   apply (auto dest!: get_file_entrylist_frame_sym simp: unchanged_but_maps_def read_into_buffer_def)
  done

declare fill_buffer.simps [simp del]

text \<open>Lines 358 to 363 of \<^verbatim>\<open>read\<close>: the file that holds entry \<open>i_entry\<close>, or the
  number of files when there is none.\<close>

definition locate_file ::
  "'r lh5_store \<Rightarrow> 'r iter_core \<Rightarrow> int \<Rightarrow> 'r iter_core \<times> (py_error + int)" where
  "locate_file st it i_entry =
     (if searchsorted_right (entry_map it) i_entry < int (length (lh5_files it))
      then (case py_getitem (entry_map it) (searchsorted_right (entry_map it) i_entry) of
              Inl e \<Rightarrow> (it, Inl e)
            | Inr m \<Rightarrow>
                if m = q_max
                then find_file st it (searchsorted_right (entry_map it) i_entry) i_entry
                else (it, Inr (searchsorted_right (entry_map it) i_entry)))
      else (it, Inr (searchsorted_right (entry_map it) i_entry)))"

text \<open>
  \<^verbatim>\<open>read\<close> up to line 392, that is, all of it but the friend's read. The result tells
  whether line 392 was reached (\<open>True\<close>) or the call returned the buffer early (\<open>False\<close>:
  lines 351 and 366).
\<close>

definition read_own ::
  "'r lh5_store \<Rightarrow> 'r iter_core \<Rightarrow> int \<Rightarrow> int option \<Rightarrow> 'r iter_core \<times> (py_error + bool)" where
  "read_own st it i_entry n_opt =
     (if n_opt = Some 0 then (it\<lparr>lh5_buffer := resize (lh5_buffer it) 0\<rparr>, Inr False)
      else if (case n_opt of None \<Rightarrow> False | Some k \<Rightarrow> k > buffer_len it)
      then (it\<lparr>lh5_buffer := resize (lh5_buffer it) 0\<rparr>, Inl ValueError)
      else
        (case locate_file st (it\<lparr>lh5_buffer := resize (lh5_buffer it) 0\<rparr>) i_entry of
           (it1, Inl e) \<Rightarrow> (it1, Inl e)
         | (it1, Inr i_file) \<Rightarrow>
             if i_file = int (length (lh5_files it1)) then (it1, Inr False)
             else
               (case get_file_cumentries st it1 (i_file - 1) of
                  (it2, Inl e) \<Rightarrow> (it2, Inl e)
                | (it2, Inr c) \<Rightarrow>
                    (case fill_buffer st it2 i_file (i_entry - c)
                            (case n_opt of None \<Rightarrow> buffer_len it | Some k \<Rightarrow> k) of
                       (it3, Inl e) \<Rightarrow> (it3, Inl e)
                     | (it3, Inr u) \<Rightarrow> (it3\<lparr>current_i_entry := i_entry\<rparr>, Inr True)))))"

text \<open>\<^verbatim>\<open>read\<close>: the iterator's own read, then the friend's at the same entry with no
  \<open>n_entries\<close>; the buffer returned is the iterator's own.\<close>

fun read ::
  "'r lh5_store \<Rightarrow> 'r lh5_iterator \<Rightarrow> int \<Rightarrow> int option \<Rightarrow> 'r lh5_iterator \<times> (py_error + 'r lgdo)" where
  "read st (LH5Iterator c fr) i_entry n_opt =
     (case read_own st c i_entry n_opt of
        (c1, Inl e) \<Rightarrow> (LH5Iterator c1 fr, Inl e)
      | (c1, Inr False) \<Rightarrow> (LH5Iterator c1 fr, Inr (lh5_buffer c1))
      | (c1, Inr True) \<Rightarrow>
          (case fr of
             None \<Rightarrow> (LH5Iterator c1 None, Inr (lh5_buffer c1))
           | Some f \<Rightarrow>
               (case read st f i_entry None of
                  (f1, Inl e) \<Rightarrow> (LH5Iterator c1 (Some f1), Inl e)
                | (f1, Inr b) \<Rightarrow> (LH5Iterator c1 (Some f1), Inr (lh5_buffer c1)))))"

declare read.simps [simp del]

subsection \<open>Iteration\<close>

text \<open>\<^verbatim>\<open>__iter__\<close>.\<close>

definition iter :: "'r lh5_iterator \<Rightarrow> 'r lh5_iterator" where
  "iter it = LH5Iterator ((core it)\<lparr>current_i_entry := 0, next_i_entry := i_start (core it)\<rparr>) (friend it)"

text \<open>\<^verbatim>\<open>__next__\<close>: raising \<^verbatim>\<open>StopIteration\<close> is the result \<open>Inl StopIteration\<close>.\<close>

definition "next" ::
  "'r lh5_store \<Rightarrow> 'r lh5_iterator \<Rightarrow> 'r lh5_iterator \<times> (py_error + 'r lgdo)" where
  "next st it =
     (case read st it (next_i_entry (core it))
             (case n_entries (core it) of
                None \<Rightarrow> None
              | Some k \<Rightarrow> Some (min (buffer_len (core it)) (k + i_start (core it) - next_i_entry (core it)))) of
        (it1, Inl e) \<Rightarrow> (it1, Inl e)
      | (it1, Inr buf) \<Rightarrow>
          if buf_len buf = 0 then (it1, Inl StopIteration)
          else
            (LH5Iterator
               ((core it1)\<lparr>next_i_entry := current_i_entry (core it1) + buf_len buf\<rparr>)
               (friend it1),
             Inr buf))"





subsection \<open>Friends\<close>

text \<open>Lines 247 to 252 of \<^verbatim>\<open>add_friend\<close>: the two capacities are made equal, and the
  buffer of the iterator that had the larger one is resized.\<close>

definition harmonize :: "'r iter_core \<Rightarrow> 'r iter_core \<Rightarrow> 'r iter_core \<times> 'r iter_core" where
  "harmonize c cf =
     (if buffer_len c < buffer_len cf
      then (c, cf\<lparr>buffer_len := buffer_len c, lh5_buffer := resize (lh5_buffer cf) (buffer_len c)\<rparr>)
      else if buffer_len c > buffer_len cf
      then (c\<lparr>buffer_len := buffer_len cf, lh5_buffer := resize (lh5_buffer c) (buffer_len cf)\<rparr>, cf)
      else (c, cf))"

text \<open>\<^verbatim>\<open>add_friend\<close> with an iterator for argument. The friend is an object that the call
  changes and then links: the model changes it and stores the changed friend.\<close>

fun add_friend :: "'r lh5_iterator \<Rightarrow> 'r lh5_iterator \<Rightarrow> 'r lh5_iterator" where
  "add_friend (LH5Iterator c fr) f =
     (case harmonize c (core f) of
        (c1, cf1) \<Rightarrow>
          (case fr of
             None \<Rightarrow>
               LH5Iterator (c1\<lparr>lh5_buffer := join (lh5_buffer c1) (lh5_buffer cf1)\<rparr>)
                 (Some (LH5Iterator cf1 (friend f)))
           | Some g \<Rightarrow>
               LH5Iterator (c1\<lparr>lh5_buffer := join (lh5_buffer c1) (lh5_buffer cf1)\<rparr>)
                 (Some (add_friend g (LH5Iterator cf1 (friend f))))))"

declare add_friend.simps [simp del]

text \<open>The argument of \<^verbatim>\<open>add_friend\<close> as Python passes it: any object; line 242 tells an
  iterator from the rest.\<close>

datatype 'r py_object = Iterator "'r lh5_iterator" | NotAnIterator

definition add_friend_checked ::
  "'r lh5_iterator \<Rightarrow> 'r py_object \<Rightarrow> 'r lh5_iterator \<times> (py_error + unit)" where
  "add_friend_checked it obj =
     (case obj of
        NotAnIterator \<Rightarrow> (it, Inl ValueError)
      | Iterator f \<Rightarrow> (add_friend it f, Inr ()))"

subsection \<open>Workers and map\<close>

text \<open>\<^verbatim>\<open>np.subtract(m, b, out=m, where=m != np.iinfo("q").max)\<close>.\<close>

definition rebase :: "int list \<Rightarrow> int \<Rightarrow> int list" where
  "rebase m b = map (\<lambda>x. if x \<noteq> q_max then x - b else x) m"

text \<open>The first error of a list of results, or all the values.\<close>

fun collect :: "('e + 'a) list \<Rightarrow> 'e + 'a list" where
  "collect [] = Inr []"
| "collect (x # xs) =
     (case x of
        Inl e \<Rightarrow> Inl e
      | Inr v \<Rightarrow> (case collect xs of Inl e \<Rightarrow> Inl e | Inr vs \<Rightarrow> Inr (v # vs)))"

text \<open>
  The body of the loop of \<^verbatim>\<open>_generate_workers\<close> (lines 590 to 619) for worker
  \<open>i_worker\<close>. The deep copy keeps every attribute but the friend. When this point is
  reached with a selection, the dataset has no file and line 584 has built the empty list.
\<close>

definition make_worker ::
  "'r iter_core \<Rightarrow> 'r lh5_iterator list option \<Rightarrow> nat \<Rightarrow> nat \<Rightarrow> py_error + 'r lh5_iterator" where
  "make_worker c friend_its n_workers i_worker =
     (let lo = linspace_int (length (lh5_files c)) n_workers i_worker;
          hi = linspace_int (length (lh5_files c)) n_workers (i_worker + 1);
          it1 = c\<lparr>lh5_files := py_slice (lh5_files c) lo hi,
                  groups := py_slice (groups c) lo hi,
                  file_map := py_slice (file_map c) lo hi,
                  entry_map := py_slice (entry_map c) lo hi\<rparr>
      in case (if lo - 1 > 0 then
                 (case py_getitem (file_map c) (lo - 1) of
                    Inl e \<Rightarrow> Inl e
                  | Inr fb \<Rightarrow>
                      (case py_getitem (entry_map c) (lo - 1) of
                         Inl e \<Rightarrow> Inl e
                       | Inr eb \<Rightarrow>
                           Inr (it1\<lparr>file_map := rebase (file_map it1) fb,
                                    entry_map := rebase (entry_map it1) eb\<rparr>)))
               else Inr it1) of
           Inl e \<Rightarrow> Inl e
         | Inr it2 \<Rightarrow>
             Inr (case friend_its of
                    None \<Rightarrow>
                      LH5Iterator
                        (it2\<lparr>local_entry_list :=
                               (case local_entry_list it2 of
                                  None \<Rightarrow> None | Some l \<Rightarrow> Some (py_slice [] lo hi)),
                             global_entry_list := None\<rparr>) None
                  | Some fs \<Rightarrow>
                      add_friend
                        (LH5Iterator
                           (it2\<lparr>local_entry_list :=
                                  (case local_entry_list it2 of
                                     None \<Rightarrow> None | Some l \<Rightarrow> Some (py_slice [] lo hi)),
                                global_entry_list := None\<rparr>) None)
                        (fs ! i_worker)))"

text \<open>\<^verbatim>\<open>_generate_workers\<close>. Line 585 calls \<^verbatim>\<open>self.get_file_entries\<close>, a method the class
  does not have: with a selection and at least one file the call raises.\<close>

fun generate_workers :: "'r lh5_iterator \<Rightarrow> nat \<Rightarrow> py_error + 'r lh5_iterator list" where
  "generate_workers (LH5Iterator c fr) n_workers =
     (case (case fr of
              None \<Rightarrow> Inr None
            | Some f \<Rightarrow>
                (case generate_workers f n_workers of Inl e \<Rightarrow> Inl e | Inr fs \<Rightarrow> Inr (Some fs))) of
        Inl e \<Rightarrow> Inl e
      | Inr friend_its \<Rightarrow>
          if local_entry_list c \<noteq> None \<and> lh5_files c \<noteq> [] then Inl AttributeError
          else collect (map (make_worker c friend_its n_workers) [0..<n_workers]))"

declare generate_workers.simps [simp del]


subsection \<open>Construction\<close>

text \<open>The arguments of \<^verbatim>\<open>__init__\<close> whose Python type decides a branch.\<close>

datatype groups_arg = GroupName string | GroupList "string list" | GroupLists "string list list"

datatype entry_list_arg = GlobalEntries "int list" | LocalEntries "int list list"

datatype entry_mask_arg = GlobalMask "bool list" | LocalMasks "bool list list"

text \<open>Lines 134 to 151: one list of groups for each file.\<close>

definition group_lists :: "string list \<Rightarrow> groups_arg \<Rightarrow> py_error + string list list" where
  "group_lists files gs =
     (case gs of
        GroupName g \<Rightarrow> Inr (replicate (length files) [g])
      | GroupList l \<Rightarrow> Inr (replicate (length files) l)
      | GroupLists ls \<Rightarrow> if length ls = length files then Inr ls else Inl ValueError)"

text \<open>Lines 154 to 159: the dataset, the (file, group) pairs in order.\<close>

definition flatten_dataset ::
  "'r lh5_store \<Rightarrow> string list \<Rightarrow> string list list \<Rightarrow> (string \<times> string) list" where
  "flatten_dataset st files gls =
     concat (map (\<lambda>(f, g). concat (map (\<lambda>f_exp. map (\<lambda>gr. (f_exp, gr)) g) (expand_path st f)))
       (zip files gls))"

text \<open>Lines 219 to 222 and 232 to 234: one local list for each file, empty for the files
  that were given none; a list too many raises.\<close>

definition local_lists :: "nat \<Rightarrow> int list list \<Rightarrow> py_error + int list option list" where
  "local_lists n ls =
     (if length ls > n then Inl IndexError
      else Inr (map Some ls @ replicate (n - length ls) (Some [])))"

text \<open>Lines 209 to 234: the local and the global entry list.\<close>

definition selection ::
  "nat \<Rightarrow> entry_list_arg option \<Rightarrow> entry_mask_arg option \<Rightarrow>
     py_error + (int list option list option \<times> int list option)" where
  "selection n el em =
     (case el of
        Some (GlobalEntries l) \<Rightarrow>
          if l = [] then Inl IndexError else Inr (Some (replicate n None), Some (sort l))
      | Some (LocalEntries ls) \<Rightarrow>
          if ls = [] then Inl IndexError
          else (case local_lists n (map sort ls) of Inl e \<Rightarrow> Inl e | Inr x \<Rightarrow> Inr (Some x, None))
      | None \<Rightarrow>
          (case em of
             None \<Rightarrow> Inr (None, None)
           | Some (GlobalMask m) \<Rightarrow> Inr (Some (replicate n None), Some (nonzero m))
           | Some (LocalMasks ms) \<Rightarrow>
               (case local_lists n (map nonzero ms) of
                  Inl e \<Rightarrow> Inl e | Inr x \<Rightarrow> Inr (Some x, None))))"

text \<open>
  \<^verbatim>\<open>__init__\<close>, with the list of files, the capacity as a number of rows, and the friend
  an iterator when there is one.
\<close>

definition init ::
  "'r lh5_store \<Rightarrow> string list \<Rightarrow> groups_arg \<Rightarrow> entry_list_arg option \<Rightarrow> entry_mask_arg option \<Rightarrow>
     int \<Rightarrow> int option \<Rightarrow> int \<Rightarrow> int list option \<Rightarrow> 'r lh5_iterator option \<Rightarrow>
     py_error + 'r lh5_iterator" where
  "init st files gs el em i_st n_ent bl fmap fr =
     (case group_lists files gs of
        Inl e \<Rightarrow> Inl e
      | Inr gls \<Rightarrow>
          if el \<noteq> None \<and> em \<noteq> None then Inl ValueError
          else if flatten_dataset st files gls = [] then Inl RuntimeError
          else
            (let ds = flatten_dataset st files gls;
                 f0 = fst (hd ds);
                 g0 = snd (hd ds);
                 fm = (case fmap of
                         None \<Rightarrow> (replicate (length ds) q_max)[0 := read_n_rows st g0 f0]
                       | Some m \<Rightarrow> m)
             in case selection (length fm) el em of
                  Inl e \<Rightarrow> Inl e
                | Inr (lel, gel) \<Rightarrow>
                    Inr ((case fr of None \<Rightarrow> (\<lambda>x. x) | Some f \<Rightarrow> (\<lambda>x. add_friend x f))
                      (LH5Iterator
                        \<lparr>lh5_files = map fst ds, groups = map snd ds, file_map = fm,
                         entry_map = replicate (length ds) q_max, buffer_len = bl,
                         lh5_buffer = get_buffer st g0 f0 bl, i_start = i_st,
                         n_entries = n_ent, current_i_entry = 0, next_i_entry = 0,
                         local_entry_list = lel, global_entry_list = gel,
                         trace = [ReadNRows g0 f0]\<rparr>
                        None))))"


section \<open>Predicates of the statements\<close>



section \<open>Consistent iterators\<close>

text \<open>
  What the two cumulative arrays are meant to hold, stated from the dataset and the
  selection alone. \<open>resolved m\<close> is the length of the resolved prefix of a cumulative
  array, and \<open>known_prefix f k n\<close> the array of length \<open>n\<close> whose first \<open>k\<close> entries
  are resolved to \<open>f 0, \<dots>, f (k - 1)\<close>. \<open>cumlen_true st it j\<close> is the number of rows of
  the first \<open>j\<close> dataset elements, \<open>elist_true st it j\<close> the local entry list of element
  \<open>j\<close> (given, or derived from the global list as lines 323 to 327 do), and
  \<open>cument_true st it j\<close> the number of entries that \<^verbatim>\<open>_get_file_cumentries\<close> counts for
  the first \<open>j\<close> elements.
\<close>

definition resolved :: "int list \<Rightarrow> nat" where
  "resolved m = length (takeWhile (\<lambda>x. x < q_max) m)"

definition known_prefix :: "(nat \<Rightarrow> int) \<Rightarrow> nat \<Rightarrow> nat \<Rightarrow> int list" where
  "known_prefix f k n = map f [0..<k] @ replicate (n - k) q_max"

definition rows_at :: "'r lh5_store \<Rightarrow> 'r iter_core \<Rightarrow> nat \<Rightarrow> int" where
  "rows_at st it j = read_n_rows st (groups it ! j) (lh5_files it ! j)"

definition cumlen_true :: "'r lh5_store \<Rightarrow> 'r iter_core \<Rightarrow> nat \<Rightarrow> int" where
  "cumlen_true st it j = sum_list (map (rows_at st it) [0..<j])"

definition sel_true :: "'r lh5_store \<Rightarrow> 'r iter_core \<Rightarrow> nat \<Rightarrow> int \<Rightarrow> int list option" where
  "sel_true st it j prev =
     (case local_entry_list it of
        None \<Rightarrow> None
      | Some lel \<Rightarrow>
          (case global_entry_list it of
             None \<Rightarrow> lel ! j
           | Some gl \<Rightarrow>
               Some (derive_entrylist gl (cumlen_true st it j) (cumlen_true st it (Suc j)) prev)))"

primrec cument_true :: "'r lh5_store \<Rightarrow> 'r iter_core \<Rightarrow> nat \<Rightarrow> int" where
  "cument_true st it 0 = 0"
| "cument_true st it (Suc j) =
     count_entries (sel_true st it j (cument_true st it j)) (cumlen_true st it (Suc j))
       (cument_true st it j)"

lemmas cument_true_Suc = cument_true.simps(2)

declare cument_true.simps(2) [simp del]

definition elist_true :: "'r lh5_store \<Rightarrow> 'r iter_core \<Rightarrow> nat \<Rightarrow> int list option" where
  "elist_true st it j = sel_true st it j (cument_true st it j)"

text \<open>The query of the row-count collaborator for element \<open>j\<close>, as the trace records it.\<close>

definition probe :: "'r iter_core \<Rightarrow> nat \<Rightarrow> event" where
  "probe it j = ReadNRows (groups it ! j) (lh5_files it ! j)"

definition is_probe :: "event \<Rightarrow> bool" where
  "is_probe e = (case e of ReadNRows g f \<Rightarrow> True | _ \<Rightarrow> False)"

text \<open>
  An iterator is consistent when its arrays have one entry for each dataset element, each
  array is a resolved prefix of the true values followed by unknown marks, no entry is
  resolved before the file length it depends on, the true values stay below the mark, and
  the local lists that are present are the true ones.
\<close>

definition consistent :: "'r lh5_store \<Rightarrow> 'r iter_core \<Rightarrow> bool" where
  "consistent st it \<longleftrightarrow>
     length (groups it) = length (lh5_files it) \<and>
     resolved (entry_map it) \<le> resolved (file_map it) \<and>
     resolved (file_map it) \<le> length (lh5_files it) \<and>
     file_map it = known_prefix (\<lambda>j. cumlen_true st it (Suc j)) (resolved (file_map it))
                     (length (lh5_files it)) \<and>
     entry_map it = known_prefix (\<lambda>j. cument_true st it (Suc j)) (resolved (entry_map it))
                      (length (lh5_files it)) \<and>
     cumlen_true st it (length (lh5_files it)) < q_max \<and>
     (\<forall>j \<le> length (lh5_files it). cument_true st it j < q_max) \<and>
     (\<forall>lel. local_entry_list it = Some lel \<longrightarrow>
        length lel = length (lh5_files it) \<and>
        (\<forall>j < length (lh5_files it).
           if global_entry_list it = None then lel ! j \<noteq> None
           else lel ! j = None \<or> lel ! j = elist_true st it j))"

text \<open>
  \<open>advances st it it'\<close>: \<open>it'\<close> is \<open>it\<close> after more of the arrays has been resolved.
  The dataset, the buffer, the cursor and the selection are as before, both resolved
  prefixes have grown or stayed, and the row-count collaborator was queried once, in
  order, for each element the file array has newly resolved.
\<close>

definition advances :: "'r lh5_store \<Rightarrow> 'r iter_core \<Rightarrow> 'r iter_core \<Rightarrow> bool" where
  "advances st it it' \<longleftrightarrow>
     consistent st it' \<and> unchanged_but_maps it it' \<and>
     (global_entry_list it = None \<longrightarrow> local_entry_list it' = local_entry_list it) \<and>
     resolved (file_map it) \<le> resolved (file_map it') \<and>
     resolved (entry_map it) \<le> resolved (entry_map it') \<and>
     filter is_probe (trace it') =
       filter is_probe (trace it) @ map (probe it) [resolved (file_map it)..<resolved (file_map it')]"

text \<open>The part of consistency that the file array needs, and the iterator after
  \<^verbatim>\<open>_get_file_cumlen\<close> has resolved the file array up to \<open>m\<close> elements.\<close>

definition files_known :: "'r lh5_store \<Rightarrow> 'r iter_core \<Rightarrow> nat \<Rightarrow> bool" where
  "files_known st it k \<longleftrightarrow>
     k \<le> length (lh5_files it) \<and> length (groups it) = length (lh5_files it) \<and>
     file_map it = known_prefix (\<lambda>j. cumlen_true st it (Suc j)) k (length (lh5_files it)) \<and>
     cumlen_true st it (length (lh5_files it)) < q_max"

definition resolve_files :: "'r lh5_store \<Rightarrow> 'r iter_core \<Rightarrow> nat \<Rightarrow> 'r iter_core" where
  "resolve_files st it m =
     (if m \<le> resolved (file_map it) then it
      else it\<lparr>file_map := known_prefix (\<lambda>j. cumlen_true st it (Suc j)) m (length (lh5_files it)),
              trace := trace it @ map (probe it) [resolved (file_map it)..<m]\<rparr>)"


section \<open>The iterators that the program produces\<close>

text \<open>
  \<open>no_overflow st it\<close>: the true cumulative values of the dataset stay below
  \<open>q_max\<close>, the value that marks an unknown entry of the arrays. \<open>reachable st c\<close>:
  \<open>c\<close> is the state of an iterator that \<^verbatim>\<open>__init__\<close> built over such a dataset with
  no \<^verbatim>\<open>file_map\<close> given by the caller, after any sequence of calls of \<^verbatim>\<open>read\<close> and
  \<^verbatim>\<open>__len__\<close>. \<open>bookkeeping it b\<close> is \<open>it\<close> without what a read changes besides
  the arrays: the buffer is replaced by \<open>b\<close>, the cursor is reset, and the trace keeps only
  the queries of the row-count collaborator.
\<close>

definition bookkeeping :: "'r iter_core \<Rightarrow> 'r lgdo \<Rightarrow> 'r iter_core" where
  "bookkeeping it b =
     it\<lparr>lh5_buffer := b, current_i_entry := 0, trace := filter is_probe (trace it)\<rparr>"

definition no_overflow :: "'r lh5_store \<Rightarrow> 'r iter_core \<Rightarrow> bool" where
  "no_overflow st it \<longleftrightarrow>
     cumlen_true st it (length (lh5_files it)) < q_max \<and>
     (\<forall>j \<le> length (lh5_files it). cument_true st it j < q_max)"

inductive reachable :: "'r lh5_store \<Rightarrow> 'r iter_core \<Rightarrow> bool" for st :: "'r lh5_store" where
  constructed:
    "init st files gs el em i_st n_ent bl None fr = Inr it \<Longrightarrow> no_overflow st (core it) \<Longrightarrow>
       reachable st (core it)"
| after_read: "reachable st c \<Longrightarrow> reachable st (fst (read_own st c i n))"
| after_len: "reachable st c \<Longrightarrow> reachable st (fst (len st c))"

text \<open>The iterator that holds the per-file lists derived from its global list, and no
  global list.\<close>

definition localized :: "'r lh5_store \<Rightarrow> 'r iter_core \<Rightarrow> 'r iter_core" where
  "localized st it =
     it\<lparr>local_entry_list := Some (map (elist_true st it) [0..<length (lh5_files it)]),
        global_entry_list := None\<rparr>"

section \<open>A concrete dataset\<close>

text \<open>
  Two files, \<^verbatim>\<open>a\<close> with five rows and \<^verbatim>\<open>b\<close> with seven, one group, a capacity of four
  rows (the scenario of the specification). \<open>example_core\<close> is the iterator as
  \<^verbatim>\<open>__init__\<close> leaves it, \<open>example_resolved\<close> the same after \<^verbatim>\<open>len\<close>, \<open>example_selected\<close>
  the one built with the global entry list \<^verbatim>\<open>[10, 1, 3]\<close>, and \<open>example_clamped\<close> the one
  built over \<^verbatim>\<open>a\<close> alone with the local entry lists \<^verbatim>\<open>[[2, 5, 6]]\<close>.
\<close>

definition example_store :: "nat lh5_store" where
  "example_store =
     \<lparr>table_rows = (\<lambda>g f. if f = ''a'' then [0, 1, 2, 3, 4]
                           else if f = ''b'' then [100, 101, 102, 103, 104, 105, 106] else []),
      table_fields = (\<lambda>g f. [''x'']), blank_row = 0, expand_path = (\<lambda>f. [f])\<rparr>"

definition example_core :: "nat iter_core" where
  "example_core =
     \<lparr>lh5_files = [''a'', ''b''], groups = [''g'', ''g''], file_map = [5, q_max],
      entry_map = [q_max, q_max], buffer_len = 4,
      lh5_buffer = \<lparr>columns = [''x''], rows = [0, 0, 0, 0], pad = 0\<rparr>,
      i_start = 0, n_entries = None, current_i_entry = 0, next_i_entry = 0,
      local_entry_list = None, global_entry_list = None, trace = [ReadNRows ''g'' ''a'']\<rparr>"

definition example_resolved :: "nat iter_core" where
  "example_resolved =
     example_core\<lparr>file_map := [5, 12], entry_map := [5, 12],
       trace := [ReadNRows ''g'' ''a'', ReadNRows ''g'' ''b'']\<rparr>"

definition example_selected :: "nat iter_core" where
  "example_selected =
     example_core\<lparr>local_entry_list := Some [None, None], global_entry_list := Some [1, 3, 10]\<rparr>"

definition example_clamped :: "nat iter_core" where
  "example_clamped =
     example_core\<lparr>lh5_files := [''a''], groups := [''g''], file_map := [5], entry_map := [q_max],
       local_entry_list := Some [Some [2, 5, 6]]\<rparr>"

text \<open>The iterator with itself for friend; the iterator after \<^verbatim>\<open>read(2)\<close>; an iterator of
  capacity two with another column; the two shards of \<^verbatim>\<open>_generate_workers(2)\<close>.\<close>

definition example_pair :: "nat lh5_iterator" where
  "example_pair = LH5Iterator example_core (Some (LH5Iterator example_core None))"

definition example_after_read :: "nat iter_core" where
  "example_after_read =
     example_core\<lparr>entry_map := [5, q_max], current_i_entry := 2,
       lh5_buffer := \<lparr>columns = [''x''], rows = [2, 3, 4, 100], pad = 0\<rparr>,
       trace := [ReadNRows ''g'' ''a'', ReadRows ''g'' ''a'' 2 4, ReadRows ''g'' ''b'' 0 1]\<rparr>"

definition example_friend :: "nat iter_core" where
  "example_friend =
     example_core\<lparr>buffer_len := 2, lh5_buffer := \<lparr>columns = [''y''], rows = [7, 7], pad = 7\<rparr>\<rparr>"




section \<open>The examples, evaluated\<close>

lemmas eval_simps =
  next_def iter_def read.simps read_own_def locate_file_def len_def
  find_file.simps fill_buffer.simps get_file_cumentries.simps cumentries_loop.simps
  get_file_entrylist.simps get_file_cumlen_def cumlen_loop.simps
  first_unknown_def known_total_def searchsorted_def searchsorted_right_def
  py_getitem_def py_setitem_def py_slice_def slice_bound_def
  count_entries_def entries_out_of_range_def derive_entrylist_def start_row_def
  read_into_buffer_def store_read_def read_n_rows_def buf_len_def resize_def
  q_max_def example_store_def example_core_def Let_def

lemma example_init:
  "init example_store [''a'', ''b''] (GroupName ''g'') None None 0 None 4 None None
     = Inr (LH5Iterator example_core None)"
  by (simp add: init_def group_lists_def flatten_dataset_def selection_def example_store_def
      example_core_def get_buffer_def read_n_rows_def numeral_eq_Suc Let_def)

lemma example_selected_init:
  "init example_store [''a'', ''b''] (GroupName ''g'') (Some (GlobalEntries [10, 1, 3])) None
     0 None 4 None None = Inr (LH5Iterator example_selected None)"
  by (simp add: init_def group_lists_def flatten_dataset_def selection_def example_store_def
      example_core_def example_selected_def get_buffer_def read_n_rows_def numeral_eq_Suc Let_def)

lemma example_clamped_init:
  "init example_store [''a''] (GroupName ''g'') (Some (LocalEntries [[2, 5, 6]])) None
     0 None 4 None None = Inr (LH5Iterator example_clamped None)"
  by (simp add: init_def group_lists_def flatten_dataset_def selection_def local_lists_def
      example_store_def example_core_def example_clamped_def get_buffer_def read_n_rows_def
      numeral_eq_Suc Let_def)

lemma example_len: "len example_store example_core = (example_resolved, Inr 12)"
  by (simp add: eval_simps example_resolved_def)

lemma upt_0_2: "[0..<2] = [0, 1]"
  by (simp add: numeral_eq_Suc upt_rec)

lemma example_pair_add_friend:
  "add_friend (LH5Iterator example_core None) (LH5Iterator example_core None) = example_pair"
  by (simp add: example_pair_def add_friend.simps harmonize_def join_def example_core_def)

lemma example_read:
  "read example_store (LH5Iterator example_core None) 2 None =
     (LH5Iterator example_after_read None, Inr (lh5_buffer example_after_read))"
  by (simp add: example_after_read_def eval_simps)







section \<open>Resolving the cumulative arrays\<close>

subsection \<open>Known prefixes\<close>

lemma q_max_pos [simp]: "0 < q_max"
  by (simp add: q_max_def)

lemma length_known_prefix [simp]: "k \<le> n \<Longrightarrow> length (known_prefix f k n) = n"
  by (simp add: known_prefix_def)

lemma known_prefix_nth_lt: "j < k \<Longrightarrow> known_prefix f k n ! j = f j"
  by (simp add: known_prefix_def nth_append)

lemma known_prefix_nth_ge: "k \<le> j \<Longrightarrow> j < n \<Longrightarrow> known_prefix f k n ! j = q_max"
  by (simp add: known_prefix_def nth_append)

lemma resolved_known_prefix:
  assumes "\<forall>j<k. f j < q_max"
  shows "resolved (known_prefix f k n) = k"
proof -
  have "takeWhile (\<lambda>x. x < q_max) (map f [0..<k] @ replicate (n - k) q_max) = map f [0..<k]"
    using assms by (cases "n - k") (auto simp: takeWhile_append)
  then show ?thesis by (simp add: resolved_def known_prefix_def)
qed

lemma known_prefix_update:
  "k < n \<Longrightarrow> (known_prefix f k n)[k := f k] = known_prefix f (Suc k) n"
proof -
  assume "k < n"
  then obtain d where d: "n - k = Suc d" "n - Suc k = d"
    by (cases "n - k") auto
  then show ?thesis
    by (simp add: known_prefix_def list_update_append)
qed

lemma first_unknown_resolved: "first_unknown m = int (resolved m)"
  by (simp add: first_unknown_def searchsorted_def resolved_def)

lemma known_total_known_prefix:
  assumes "\<forall>j<k. f j < q_max" "k \<le> n"
  shows "known_total (known_prefix f k n) = (if k = 0 then 0 else f (k - 1))"
  using assms
  by (simp add: known_total_def first_unknown_resolved resolved_known_prefix known_prefix_nth_lt
      nat_diff_distrib)


subsection \<open>The true cumulative lengths\<close>

lemma rows_at_nonneg [simp]: "0 \<le> rows_at st it j"
  by (simp add: rows_at_def read_n_rows_def)

lemma cumlen_true_0 [simp]: "cumlen_true st it 0 = 0"
  by (simp add: cumlen_true_def)

lemma cumlen_true_Suc: "cumlen_true st it (Suc j) = cumlen_true st it j + rows_at st it j"
  by (simp add: cumlen_true_def)

lemma cumlen_true_nonneg [simp]: "0 \<le> cumlen_true st it j"
  by (induction j) (simp_all add: cumlen_true_Suc)

lemma cumlen_true_mono: "j \<le> k \<Longrightarrow> cumlen_true st it j \<le> cumlen_true st it k"
proof (induction k)
  case 0
  then show ?case by simp
next
  case (Suc k)
  have step: "cumlen_true st it k \<le> cumlen_true st it (Suc k)"
    by (simp add: cumlen_true_Suc)
  show ?case
  proof (cases "j = Suc k")
    case True
    then show ?thesis by simp
  next
    case False
    with Suc.prems have "j \<le> k" by simp
    then have "cumlen_true st it j \<le> cumlen_true st it k" by (rule Suc.IH)
    with step show ?thesis by simp
  qed
qed

lemma cumlen_true_cong:
  "lh5_files a = lh5_files b \<Longrightarrow> groups a = groups b \<Longrightarrow> cumlen_true st a = cumlen_true st b"
proof -
  assume "lh5_files a = lh5_files b" "groups a = groups b"
  then have "rows_at st a = rows_at st b"
    by (simp add: rows_at_def fun_eq_iff)
  then have "\<And>j. cumlen_true st a j = cumlen_true st b j"
    by (simp add: cumlen_true_def)
  then show ?thesis by (simp add: fun_eq_iff)
qed

lemma probe_cong:
  "lh5_files a = lh5_files b \<Longrightarrow> groups a = groups b \<Longrightarrow> probe a = probe b"
  by (simp add: probe_def fun_eq_iff)

lemma cumlen_true_update [simp]:
  "cumlen_true st (it\<lparr>file_map := fm\<rparr>) = cumlen_true st it"
  "cumlen_true st (it\<lparr>entry_map := em\<rparr>) = cumlen_true st it"
  "cumlen_true st (it\<lparr>trace := tr\<rparr>) = cumlen_true st it"
  "cumlen_true st (it\<lparr>lh5_buffer := b\<rparr>) = cumlen_true st it"
  "cumlen_true st (it\<lparr>current_i_entry := c\<rparr>) = cumlen_true st it"
  "cumlen_true st (it\<lparr>local_entry_list := l\<rparr>) = cumlen_true st it"
  "cumlen_true st (it\<lparr>global_entry_list := g\<rparr>) = cumlen_true st it"
  by (rule cumlen_true_cong, simp, simp)+

lemma probe_update [simp]:
  "probe (it\<lparr>file_map := fm\<rparr>) = probe it"
  "probe (it\<lparr>entry_map := em\<rparr>) = probe it"
  "probe (it\<lparr>trace := tr\<rparr>) = probe it"
  "probe (it\<lparr>lh5_buffer := b\<rparr>) = probe it"
  "probe (it\<lparr>current_i_entry := c\<rparr>) = probe it"
  "probe (it\<lparr>local_entry_list := l\<rparr>) = probe it"
  "probe (it\<lparr>global_entry_list := g\<rparr>) = probe it"
  by (rule probe_cong, simp, simp)+

lemma py_getitem_nat: "j < length xs \<Longrightarrow> py_getitem xs (int j) = Inr (xs ! j)"
  by (simp add: py_getitem_def)

lemma files_known_resolved:
  assumes "files_known st it k"
  shows "resolved (file_map it) = k"
proof -
  from assms have fm: "file_map it = known_prefix (\<lambda>j. cumlen_true st it (Suc j)) k (length (lh5_files it))"
    and b: "cumlen_true st it (length (lh5_files it)) < q_max" and k: "k \<le> length (lh5_files it)"
    by (simp_all add: files_known_def)
  have "\<forall>j<k. cumlen_true st it (Suc j) < q_max"
  proof (intro allI impI)
    fix j assume "j < k"
    with k have "Suc j \<le> length (lh5_files it)" by simp
    from cumlen_true_mono [OF this, of st it] b show "cumlen_true st it (Suc j) < q_max" by simp
  qed
  then have "resolved (known_prefix (\<lambda>j. cumlen_true st it (Suc j)) k (length (lh5_files it))) = k"
    by (rule resolved_known_prefix)
  with fm show ?thesis by simp
qed

lemma files_known_bound:
  "files_known st it k \<Longrightarrow> j \<le> length (lh5_files it) \<Longrightarrow> cumlen_true st it j < q_max"
  using cumlen_true_mono [of j "length (lh5_files it)" st it] by (simp add: files_known_def)

lemma cumlen_loop_resolves:
  assumes "files_known st it k" "k \<le> m" "m \<le> length (lh5_files it)"
  shows "cumlen_loop st it (int k) (int m) (cumlen_true st it k) =
           (it\<lparr>file_map := known_prefix (\<lambda>j. cumlen_true st it (Suc j)) m (length (lh5_files it)),
               trace := trace it @ map (probe it) [k..<m]\<rparr>,
            Inr (cumlen_true st it m))"
  using assms
proof (induction "m - k" arbitrary: it k)
  case 0
  then have "k = m" by simp
  with "0.prems" show ?case
    by (simp add: cumlen_loop.simps [of st it "int m" "int m"] files_known_def)
next
  case (Suc d)
  then have km: "k < m" by simp
  let ?n = "length (lh5_files it)"
  let ?F = "\<lambda>j. cumlen_true st it (Suc j)"
  let ?it1 = "it\<lparr>file_map := (file_map it)[k := cumlen_true st it k + rows_at st it k],
                 trace := trace it @ [probe it k]\<rparr>"
  from Suc.prems km have kn: "k < ?n" by simp
  from Suc.prems have fk: "file_map it = known_prefix ?F k ?n" and lg: "length (groups it) = ?n"
    by (simp_all add: files_known_def)
  have same: "cumlen_true st ?it1 = cumlen_true st it" "probe ?it1 = probe it"
    by simp_all
  have fm1: "file_map ?it1 = known_prefix ?F (Suc k) ?n"
    using kn fk known_prefix_update [of k ?n ?F] by (simp add: cumlen_true_Suc)
  have fk1: "files_known st ?it1 (Suc k)"
    using Suc.prems kn fm1 by (simp add: files_known_def same)
  from Suc.hyps(2) have d: "d = m - Suc k" by simp
  have step: "cumlen_loop st it (int k) (int m) (cumlen_true st it k) =
      cumlen_loop st ?it1 (int (Suc k)) (int m) (cumlen_true st ?it1 (Suc k))"
    using km kn lg
    by (simp add: cumlen_loop.simps [of st it "int k" "int m"] py_getitem_nat rows_at_def
        probe_def same cumlen_true_Suc add.commute [of "int k" 1])
  have "cumlen_loop st ?it1 (int (Suc k)) (int m) (cumlen_true st ?it1 (Suc k)) =
      (?it1\<lparr>file_map := known_prefix (\<lambda>j. cumlen_true st ?it1 (Suc j)) m (length (lh5_files ?it1)),
            trace := trace ?it1 @ map (probe ?it1) [Suc k..<m]\<rparr>,
       Inr (cumlen_true st ?it1 m))"
    using d fk1 km Suc.prems by (intro Suc.hyps(1)) simp_all
  with step km show ?case
    by (simp add: same upt_conv_Cons)
qed


lemma get_file_cumlen_resolves:
  assumes "files_known st it k" "m \<le> length (lh5_files it)"
  shows "get_file_cumlen st it (int m - 1) = (resolve_files st it m, Inr (cumlen_true st it m))"
proof (cases m)
  case 0
  then show ?thesis by (simp add: get_file_cumlen_def resolve_files_def)
next
  case (Suc j)
  let ?n = "length (lh5_files it)"
  let ?F = "\<lambda>j. cumlen_true st it (Suc j)"
  from assms have fm: "file_map it = known_prefix ?F k ?n" and kn: "k \<le> ?n"
    by (simp_all add: files_known_def)
  note rk = files_known_resolved [OF assms(1)]
  from assms Suc have jn: "j < ?n" by simp
  with fm kn have gi: "py_getitem (file_map it) (int j) = Inr (file_map it ! j)"
    by (simp add: py_getitem_nat)
  show ?thesis
  proof (cases "j < k")
    case True
    with fm have v: "file_map it ! j = cumlen_true st it (Suc j)"
      by (simp add: known_prefix_nth_lt)
    from files_known_bound [OF assms(1), of "Suc j"] jn have "cumlen_true st it (Suc j) \<noteq> q_max"
      by simp
    with Suc gi v True rk show ?thesis
      by (simp add: get_file_cumlen_def resolve_files_def)
  next
    case False
    with fm jn have v: "file_map it ! j = q_max"
      by (simp add: known_prefix_nth_ge)
    have b: "\<forall>j<k. ?F j < q_max"
      using files_known_bound [OF assms(1)] kn by simp
    have kt: "known_total (file_map it) = cumlen_true st it k"
      using known_total_known_prefix [OF b kn] fm by (cases k) simp_all
    from False Suc have km: "k \<le> m" by simp
    from cumlen_loop_resolves [OF assms(1) km assms(2)] Suc gi v False rk kt show ?thesis
      by (simp add: get_file_cumlen_def resolve_files_def first_unknown_resolved
          add.commute [of "int j" 1])
  qed
qed

subsection \<open>The true cumulative entries\<close>

lemma cument_true_cong:
  assumes "lh5_files a = lh5_files b" "groups a = groups b"
    "local_entry_list a = local_entry_list b" "global_entry_list a = global_entry_list b"
  shows "cument_true st a j = cument_true st b j"
proof (induction j)
  case 0
  show ?case by simp
next
  case (Suc j)
  from assms(1,2) have "cumlen_true st a = cumlen_true st b" by (rule cumlen_true_cong)
  with assms Suc show ?case by (simp add: cument_true_Suc sel_true_def cong: option.case_cong)
qed

lemma cument_true_update [simp]:
  "cument_true st (it\<lparr>file_map := fm\<rparr>) j = cument_true st it j"
  "cument_true st (it\<lparr>entry_map := em\<rparr>) j = cument_true st it j"
  "cument_true st (it\<lparr>trace := tr\<rparr>) j = cument_true st it j"
  "cument_true st (it\<lparr>lh5_buffer := b\<rparr>) j = cument_true st it j"
  "cument_true st (it\<lparr>current_i_entry := c\<rparr>) j = cument_true st it j"
  by (rule cument_true_cong, simp, simp, simp, simp)+

text \<open>A materialised local list does not change what the lists are derived from.\<close>

lemma cument_true_materialise:
  assumes "local_entry_list it = Some lel" "global_entry_list it = Some gl"
  shows "cument_true st (it\<lparr>local_entry_list := Some lel'\<rparr>) j = cument_true st it j"
  using assms by (induction j) (simp_all add: cument_true_Suc sel_true_def cong: option.case_cong)

lemma count_entries_selected_ge: "n \<le> count_entries (Some el) fcl n"
  by (simp add: count_entries_def searchsorted_right_def)

lemma cument_true_unselected:
  "local_entry_list it = None \<Longrightarrow> cument_true st it j = cumlen_true st it j"
  by (cases j) (simp_all add: cument_true_Suc sel_true_def count_entries_def)

lemma consistent_files_known: "consistent st it \<Longrightarrow> files_known st it (resolved (file_map it))"
  by (simp add: consistent_def files_known_def)

lemma consistent_elist_selected:
  assumes "consistent st it" "local_entry_list it = Some lel" "j < length (lh5_files it)"
  shows "\<exists>el. elist_true st it j = Some el"
proof (cases "global_entry_list it")
  case None
  with assms show ?thesis
    by (auto simp: consistent_def elist_true_def sel_true_def)
next
  case (Some gl)
  with assms show ?thesis
    by (simp add: elist_true_def sel_true_def)
qed

lemma cument_true_step:
  assumes "consistent st it" "j < length (lh5_files it)"
  shows "cument_true st it j \<le> cument_true st it (Suc j)"
proof (cases "local_entry_list it")
  case None
  then show ?thesis
    using cumlen_true_mono [of j "Suc j" st it] by (simp only: cument_true_unselected)
next
  case (Some lel)
  from consistent_elist_selected [OF assms(1) Some assms(2)]
  obtain el where "sel_true st it j (cument_true st it j) = Some el"
    by (auto simp: elist_true_def)
  then show ?thesis by (simp add: cument_true_Suc count_entries_selected_ge)
qed

lemma cument_true_mono:
  assumes "consistent st it"
  shows "j \<le> k \<Longrightarrow> k \<le> length (lh5_files it) \<Longrightarrow> cument_true st it j \<le> cument_true st it k"
proof (induction k)
  case 0
  then show ?case by simp
next
  case (Suc k)
  show ?case
  proof (cases "j = Suc k")
    case True
    then show ?thesis by simp
  next
    case False
    with Suc.prems have "j \<le> k" "k \<le> length (lh5_files it)" "k < length (lh5_files it)" by simp_all
    with Suc.IH cument_true_step [OF assms, of k] show ?thesis by linarith
  qed
qed

lemma consistent_entries_bound:
  "consistent st it \<Longrightarrow> j \<le> length (lh5_files it) \<Longrightarrow> cument_true st it j < q_max"
  by (simp add: consistent_def)

subsection \<open>Advancing\<close>

lemma advances_refl: "consistent st it \<Longrightarrow> advances st it it"
  by (simp add: advances_def)

lemma advances_same:
  assumes "advances st it it'"
  shows "cumlen_true st it' = cumlen_true st it" "probe it' = probe it"
    "cument_true st it' j = cument_true st it j" "elist_true st it' j = elist_true st it j"
    "length (lh5_files it') = length (lh5_files it)"
proof -
  from assms have u: "lh5_files it' = lh5_files it" "groups it' = groups it"
    "global_entry_list it' = global_entry_list it"
    "local_entry_list it' = None \<longleftrightarrow> local_entry_list it = None"
    and l: "global_entry_list it = None \<longrightarrow> local_entry_list it' = local_entry_list it"
    by (simp_all add: advances_def unchanged_but_maps_def)
  from u show cl: "cumlen_true st it' = cumlen_true st it" by (intro cumlen_true_cong)
  from u show "probe it' = probe it" by (intro probe_cong)
  have ce: "cument_true st it' j = cument_true st it j" for j
  proof (induction j)
    case 0
    show ?case by simp
  next
    case (Suc j)
    show ?case
    proof (cases "global_entry_list it")
      case None
      with l u Suc cl show ?thesis
        by (simp add: cument_true_Suc sel_true_def cong: option.case_cong)
    next
      case (Some gl)
      with u Suc cl show ?thesis
        by (cases "local_entry_list it"; cases "local_entry_list it'")
          (simp_all add: cument_true_Suc sel_true_def cong: option.case_cong)
    qed
  qed
  then show "cument_true st it' j = cument_true st it j" .
  show "elist_true st it' j = elist_true st it j"
  proof (cases "global_entry_list it")
    case None
    with l u ce cl show ?thesis
      by (simp add: elist_true_def sel_true_def cong: option.case_cong)
  next
    case (Some gl)
    with u ce cl show ?thesis
      by (cases "local_entry_list it"; cases "local_entry_list it'")
        (simp_all add: elist_true_def sel_true_def cong: option.case_cong)
  qed
  from u show "length (lh5_files it') = length (lh5_files it)" by simp
qed

lemma advances_trans:
  assumes "advances st a b" "advances st b c"
  shows "advances st a c"
proof -
  note ab = advances_same [OF assms(1)]
  from assms have r: "resolved (file_map a) \<le> resolved (file_map b)"
    "resolved (file_map b) \<le> resolved (file_map c)"
    by (simp_all add: advances_def)
  then have upt: "[resolved (file_map a)..<resolved (file_map c)] =
      [resolved (file_map a)..<resolved (file_map b)] @ [resolved (file_map b)..<resolved (file_map c)]"
    by (metis le_Suc_ex upt_add_eq_append)
  from assms have u: "unchanged_but_maps a b" "unchanged_but_maps b c"
    by (simp_all add: advances_def)
  then have uac: "unchanged_but_maps a c" by (rule unchanged_trans)
  from u have g: "global_entry_list b = global_entry_list a"
    by (simp add: unchanged_but_maps_def)
  from assms g have l: "global_entry_list a = None \<longrightarrow> local_entry_list c = local_entry_list a"
    by (simp add: advances_def)
  from assms have tr: "filter is_probe (trace c) =
      filter is_probe (trace a) @ map (probe a) [resolved (file_map a)..<resolved (file_map c)]"
    by (simp add: advances_def ab(2) upt)
  from assms uac l tr r show ?thesis
    by (simp add: advances_def)
qed



lemma elist_true_update [simp]:
  "elist_true st (it\<lparr>file_map := fm\<rparr>) j = elist_true st it j"
  "elist_true st (it\<lparr>entry_map := em\<rparr>) j = elist_true st it j"
  "elist_true st (it\<lparr>trace := tr\<rparr>) j = elist_true st it j"
  "elist_true st (it\<lparr>lh5_buffer := b\<rparr>) j = elist_true st it j"
  "elist_true st (it\<lparr>current_i_entry := c\<rparr>) j = elist_true st it j"
  by (simp_all add: elist_true_def sel_true_def cong: option.case_cong)

lemma elist_true_materialise:
  assumes "local_entry_list it = Some lel" "global_entry_list it = Some gl"
  shows "elist_true st (it\<lparr>local_entry_list := Some lel'\<rparr>) j = elist_true st it j"
  using assms
  by (simp add: elist_true_def sel_true_def cument_true_materialise cong: option.case_cong)

lemma is_probe_probe [simp]: "is_probe (probe it j)"
  by (simp add: is_probe_def probe_def)

lemma filter_probes_map [simp]: "filter is_probe (map (probe it) js) = map (probe it) js"
  by (induction js) simp_all

lemma consistent_cumlen_bound:
  "consistent st it \<Longrightarrow> j \<le> length (lh5_files it) \<Longrightarrow> cumlen_true st it j < q_max"
  using files_known_bound [OF consistent_files_known] .

lemma consistent_lengths:
  assumes "consistent st it"
  shows "length (file_map it) = length (lh5_files it)"
    and "length (entry_map it) = length (lh5_files it)"
    and "length (groups it) = length (lh5_files it)"
proof -
  from assms have "file_map it = known_prefix (\<lambda>j. cumlen_true st it (Suc j))
      (resolved (file_map it)) (length (lh5_files it))" "resolved (file_map it) \<le> length (lh5_files it)"
    by (simp_all add: consistent_def)
  then show "length (file_map it) = length (lh5_files it)"
    using length_known_prefix by metis
  from assms have "entry_map it = known_prefix (\<lambda>j. cument_true st it (Suc j))
      (resolved (entry_map it)) (length (lh5_files it))" "resolved (entry_map it) \<le> length (lh5_files it)"
    by (simp_all add: consistent_def)
  then show "length (entry_map it) = length (lh5_files it)"
    using length_known_prefix by metis
  from assms show "length (groups it) = length (lh5_files it)"
    by (simp add: consistent_def)
qed

lemma resolve_files_advances:
  assumes "consistent st it" "m \<le> length (lh5_files it)"
  shows "advances st it (resolve_files st it m)"
    and "resolved (file_map (resolve_files st it m)) = max (resolved (file_map it)) m"
    and "entry_map (resolve_files st it m) = entry_map it"
    and "local_entry_list (resolve_files st it m) = local_entry_list it"
proof -
  let ?n = "length (lh5_files it)"
  let ?F = "\<lambda>j. cumlen_true st it (Suc j)"
  let ?it' = "it\<lparr>file_map := known_prefix ?F m ?n,
                  trace := trace it @ map (probe it) [resolved (file_map it)..<m]\<rparr>"
  have b: "\<forall>j<m. ?F j < q_max"
    using consistent_cumlen_bound [OF assms(1)] assms(2) by simp
  then have rm: "resolved (known_prefix ?F m ?n) = m" by (rule resolved_known_prefix)
  show "entry_map (resolve_files st it m) = entry_map it"
    "local_entry_list (resolve_files st it m) = local_entry_list it"
    by (simp_all add: resolve_files_def)
  show "resolved (file_map (resolve_files st it m)) = max (resolved (file_map it)) m"
    using rm by (simp add: resolve_files_def max_def)
  show "advances st it (resolve_files st it m)"
  proof (cases "m \<le> resolved (file_map it)")
    case True
    with assms show ?thesis by (simp add: resolve_files_def advances_refl)
  next
    case False
    from assms False rm have c: "consistent st ?it'"
      by (simp add: consistent_def)
    from assms False rm consistent_lengths [OF assms(1)] have "advances st it ?it'"
      unfolding advances_def
      by (intro conjI c) (simp_all add: unchanged_but_maps_def)
    with False show ?thesis by (simp add: resolve_files_def)
  qed
qed

lemma entry_step_advances:
  assumes "consistent st it" "resolved (entry_map it) = k" "k < resolved (file_map it)"
    and "filter is_probe w = []"
  shows "advances st it
           (it\<lparr>entry_map := (entry_map it)[k := cument_true st it (Suc k)], trace := trace it @ w\<rparr>)"
    and "resolved ((entry_map it)[k := cument_true st it (Suc k)]) = Suc k"
proof -
  let ?n = "length (lh5_files it)"
  let ?E = "\<lambda>j. cument_true st it (Suc j)"
  let ?it' = "it\<lparr>entry_map := (entry_map it)[k := cument_true st it (Suc k)], trace := trace it @ w\<rparr>"
  from assms have kn: "k < ?n" and em: "entry_map it = known_prefix ?E k ?n"
    by (simp_all add: consistent_def)
  then have em': "(entry_map it)[k := ?E k] = known_prefix ?E (Suc k) ?n"
    using known_prefix_update [of k ?n ?E] by simp
  have "\<forall>j<Suc k. ?E j < q_max"
    using consistent_entries_bound [OF assms(1)] kn by simp
  then have r: "resolved (known_prefix ?E (Suc k) ?n) = Suc k" by (rule resolved_known_prefix)
  with em' show r': "resolved ((entry_map it)[k := cument_true st it (Suc k)]) = Suc k" by simp
  from assms em' r kn have c: "consistent st ?it'"
    by (simp add: consistent_def)
  from assms r' show "advances st it ?it'"
    unfolding advances_def
    by (intro conjI c) (simp_all add: unchanged_but_maps_def)
qed

lemma materialise_advances:
  assumes "consistent st it" "local_entry_list it = Some lel" "global_entry_list it = Some gl"
  shows "advances st it (it\<lparr>local_entry_list := Some (lel[j := elist_true st it j])\<rparr>)"
proof -
  let ?it' = "it\<lparr>local_entry_list := Some (lel[j := elist_true st it j])\<rparr>"
  have ce: "cument_true st ?it' i = cument_true st it i" for i
    using assms(2,3) by (rule cument_true_materialise)
  have el: "elist_true st ?it' i = elist_true st it i" for i
    using assms(2,3) by (rule elist_true_materialise)
  have lists: "(lel[j := elist_true st it j]) ! i = None
      \<or> (lel[j := elist_true st it j]) ! i = elist_true st it i"
    if "i < length (lh5_files it)" for i
    using that assms by (cases "i = j") (auto simp: consistent_def)
  from assms lists have c: "consistent st ?it'"
    by (simp add: consistent_def ce el)
  from assms show ?thesis
    unfolding advances_def
    by (intro conjI c) (simp_all add: unchanged_but_maps_def)
qed



lemma nat_int_Suc [simp]: "nat (int j + 1) = Suc j" "nat (1 + int j) = Suc j"
  by simp_all

lemma cument_true_Suc':
  "cument_true st it (Suc j) =
     count_entries (elist_true st it j) (cumlen_true st it (Suc j)) (cument_true st it j)"
  by (simp add: cument_true_Suc elist_true_def)

lemma advances_consistent: "advances st it it' \<Longrightarrow> consistent st it'"
  by (simp add: advances_def)

lemma advances_resolved_entries: "advances st it it' \<Longrightarrow> resolved (entry_map it) \<le> resolved (entry_map it')"
  by (simp add: advances_def)

lemma advances_global: "advances st it it' \<Longrightarrow> global_entry_list it' = global_entry_list it"
  by (simp add: advances_def unchanged_but_maps_def)

lemma consistent_entry_known:
  assumes "consistent st it" "j < resolved (entry_map it)"
  shows "entry_map it ! j = cument_true st it (Suc j)"
proof -
  from assms have "entry_map it = known_prefix (\<lambda>j. cument_true st it (Suc j))
      (resolved (entry_map it)) (length (lh5_files it))"
    by (simp add: consistent_def)
  with assms(2) show ?thesis using known_prefix_nth_lt by metis
qed

lemma consistent_entry_unknown:
  assumes "consistent st it" "resolved (entry_map it) \<le> j" "j < length (lh5_files it)"
  shows "entry_map it ! j = q_max"
proof -
  from assms have "entry_map it = known_prefix (\<lambda>j. cument_true st it (Suc j))
      (resolved (entry_map it)) (length (lh5_files it))"
    by (simp add: consistent_def)
  with assms(2,3) show ?thesis using known_prefix_nth_ge by metis
qed

lemma consistent_known_total_entries:
  assumes "consistent st it"
  shows "known_total (entry_map it) = cument_true st it (resolved (entry_map it))"
proof -
  let ?E = "\<lambda>j. cument_true st it (Suc j)"
  let ?k = "resolved (entry_map it)"
  from assms have em: "entry_map it = known_prefix ?E ?k (length (lh5_files it))"
    and kn: "?k \<le> length (lh5_files it)"
    by (simp_all add: consistent_def)
  have b: "\<forall>j<?k. ?E j < q_max"
    using consistent_entries_bound [OF assms] kn by simp
  from known_total_known_prefix [OF b kn] em show ?thesis
    by (cases ?k) simp_all
qed

lemma get_file_cumlen_consistent:
  assumes "consistent st it" "m \<le> length (lh5_files it)"
  shows "get_file_cumlen st it (int m - 1) = (resolve_files st it m, Inr (cumlen_true st it m))"
  using get_file_cumlen_resolves [OF consistent_files_known [OF assms(1)] assms(2)] .

lemma cumentries_master:
  "consistent st it \<Longrightarrow> - 1 \<le> i_file \<Longrightarrow> i_file < int (length (lh5_files it)) \<Longrightarrow>
     \<exists>it'. get_file_cumentries st it i_file = (it', Inr (cument_true st it (nat (i_file + 1))))
       \<and> advances st it it'
       \<and> resolved (entry_map it') = max (resolved (entry_map it)) (nat (i_file + 1))"
  "consistent st it \<Longrightarrow> 0 \<le> i \<Longrightarrow> resolved (entry_map it) = nat i \<Longrightarrow> i \<le> stop \<Longrightarrow>
     stop \<le> int (length (lh5_files it)) \<Longrightarrow> v = cument_true st it (nat i) \<Longrightarrow>
     \<exists>it'. cumentries_loop st it i stop v = (it', Inr (cument_true st it (nat stop)))
       \<and> advances st it it' \<and> resolved (entry_map it') = nat stop"
  "consistent st it \<Longrightarrow> 0 \<le> i_file \<Longrightarrow> i_file < int (length (lh5_files it)) \<Longrightarrow>
     \<exists>it'. get_file_entrylist st it i_file = (it', Inr (elist_true st it (nat i_file)))
       \<and> advances st it it'
       \<and> resolved (entry_map it') \<le> max (resolved (entry_map it)) (nat i_file)
       \<and> (local_entry_list it \<noteq> None \<longrightarrow>
            the (local_entry_list it') ! nat i_file = elist_true st it (nat i_file))"
proof (induction st it i_file and st it i stop v and st it i_file
    rule: get_file_cumentries_cumentries_loop_get_file_entrylist.induct)
  case (1 st it i_file)
  note c = "1.prems"(1)
  let ?n = "length (lh5_files it)"
  let ?k = "resolved (entry_map it)"
  show ?case
  proof (cases "i_file < 0")
    case True
    with "1.prems" have "i_file = - 1" by simp
    with c show ?thesis
      by (simp add: get_file_cumentries.simps [of st it] advances_refl)
  next
    case False
    define j where "j = nat i_file"
    with False "1.prems" have j: "i_file = int j" "j < ?n" by simp_all
    from consistent_lengths [OF c] j have gi: "py_getitem (entry_map it) i_file = Inr (entry_map it ! j)"
      by (simp add: py_getitem_nat)
    show ?thesis
    proof (cases "j < ?k")
      case True
      from consistent_entry_known [OF c True] have v: "entry_map it ! j = cument_true st it (Suc j)" .
      from consistent_entries_bound [OF c, of "Suc j"] j have "cument_true st it (Suc j) \<noteq> q_max"
        by simp
      with gi v j True c show ?thesis
        by (simp add: get_file_cumentries.simps [of st it] advances_refl max_def
            add.commute [of "int j" 1])
    next
      case ge: False
      with j consistent_entry_unknown [OF c, of j] have v: "entry_map it ! j = q_max" by simp
      from c have kn: "?k \<le> ?n" by (simp add: consistent_def)
      have "\<exists>it'. cumentries_loop st it (first_unknown (entry_map it)) (i_file + 1)
                (known_total (entry_map it)) = (it', Inr (cument_true st it (nat (i_file + 1))))
              \<and> advances st it it' \<and> resolved (entry_map it') = nat (i_file + 1)"
        using False gi v c ge j
        by (intro "1.IH")
          (simp_all add: first_unknown_resolved consistent_known_total_entries)
      with gi v j ge False show ?thesis
        by (simp add: get_file_cumentries.simps [of st it] max_def)
    qed
  qed
next
  case (2 st it i stop v)
  note c = "2.prems"(1)
  let ?n = "length (lh5_files it)"
  show ?case
  proof (cases "i < stop")
    case False
    with "2.prems" have "i = stop" by simp
    with "2.prems" show ?thesis
      by (simp add: cumentries_loop.simps [of st it] advances_refl)
  next
    case True
    define j where "j = nat i"
    with "2.prems" True have j: "i = int j" "j < ?n" "resolved (entry_map it) = j" by simp_all
    from "2.IH"(1) [OF True c] "2.prems" True j
    obtain it1 where e1: "get_file_entrylist st it i = (it1, Inr (elist_true st it j))"
      and a1: "advances st it it1" and r1: "resolved (entry_map it1) \<le> j"
      by auto
    note c1 = advances_consistent [OF a1]
    note s1 = advances_same [OF a1]
    from a1 j r1 have k1: "resolved (entry_map it1) = j"
      using advances_resolved_entries [OF a1] by simp
    from j s1(5) have jn1: "Suc j \<le> length (lh5_files it1)" by simp
    from get_file_cumlen_consistent [OF c1 jn1] j
    have e2: "get_file_cumlen st it1 i = (resolve_files st it1 (Suc j), Inr (cumlen_true st it (Suc j)))"
      by (simp add: s1)
    define it2 where "it2 = resolve_files st it1 (Suc j)"
    note rf = resolve_files_advances [OF c1 jn1, folded it2_def]
    note a2 = rf(1)
    note c2 = advances_consistent [OF a2]
    note s2 = advances_same [OF a2]
    from rf(2) have f2: "j < resolved (file_map it2)" by simp
    from rf(3) k1 have k2: "resolved (entry_map it2) = j" by simp
    define w where "w = (if entries_out_of_range (elist_true st it j) (cumlen_true st it (Suc j))
      then [Warning i] else [])"
    have w: "filter is_probe w = []" by (simp add: w_def is_probe_def)
    have val: "count_entries (elist_true st it j) (cumlen_true st it (Suc j)) v = cument_true st it2 (Suc j)"
      using "2.prems"(6) j by (simp add: cument_true_Suc' s1 s2)
    define it3 where "it3 = (resolve_files st it1 (Suc j))\<lparr>entry_map :=
        (entry_map (resolve_files st it1 (Suc j)))
          [nat i := count_entries (elist_true st it j) (cumlen_true st it (Suc j)) v],
      trace := trace (resolve_files st it1 (Suc j)) @
        (if entries_out_of_range (elist_true st it j) (cumlen_true st it (Suc j))
         then [Warning i] else [])\<rparr>"
    have it3: "it3 = it2\<lparr>entry_map := (entry_map it2)[j := cument_true st it2 (Suc j)],
      trace := trace it2 @ w\<rparr>"
      using j by (simp add: it3_def it2_def w_def val)
    note es = entry_step_advances [OF c2 k2 f2 w, folded it3]
    note a3 = es(1)
    note c3 = advances_consistent [OF a3]
    note s3 = advances_same [OF a3]
    have k3: "resolved (entry_map it3) = nat (i + 1)" using es(2) j by (simp add: it3)
    note ih = "2.IH"(2) [OF True e1 [symmetric] refl e2 [symmetric] refl, folded it3_def]
    have "\<exists>it'. cumentries_loop st it3 (i + 1) stop
                (count_entries (elist_true st it j) (cumlen_true st it (Suc j)) v)
              = (it', Inr (cument_true st it3 (nat stop)))
            \<and> advances st it3 it' \<and> resolved (entry_map it') = nat stop"
    proof (rule ih [OF c3 _ k3])
      show "0 \<le> i + 1" using j by simp
      show "i + 1 \<le> stop" using True by simp
      show "stop \<le> int (length (lh5_files it3))"
        using "2.prems" by (simp add: s1 s2 s3)
      show "count_entries (elist_true st it j) (cumlen_true st it (Suc j)) v
          = cument_true st it3 (nat (i + 1))"
        using j by (simp add: val s3)
    qed
    then obtain it' where l: "cumentries_loop st it3 (i + 1) stop
                (count_entries (elist_true st it j) (cumlen_true st it (Suc j)) v)
              = (it', Inr (cument_true st it3 (nat stop)))"
      and a4: "advances st it3 it'" and k4: "resolved (entry_map it') = nat stop"
      by blast
    from a1 a2 a3 a4 have a: "advances st it it'"
      by (blast intro: advances_trans)
    have "cumentries_loop st it i stop v = cumentries_loop st it3 (i + 1) stop
        (count_entries (elist_true st it j) (cumlen_true st it (Suc j)) v)"
      using True e1 e2
      by (simp add: cumentries_loop.simps [of st it i] it3_def)
    with l a k4 show ?thesis
      by (simp add: s1 s2 s3)
  qed
next
  case (3 st it i_file)
  note c = "3.prems"(1)
  let ?n = "length (lh5_files it)"
  define j where "j = nat i_file"
  with "3.prems" have j: "i_file = int j" "j < ?n" by simp_all
  show ?case
  proof (cases "local_entry_list it")
    case None
    with c show ?thesis
      by (simp add: get_file_entrylist.simps [of st it] advances_refl elist_true_def sel_true_def)
  next
    case (Some lel)
    from c Some have ll: "length lel = ?n"
      and lists: "\<And>j. j < ?n \<Longrightarrow> (if global_entry_list it = None then lel ! j \<noteq> None
           else lel ! j = None \<or> lel ! j = elist_true st it j)"
      by (simp_all add: consistent_def)
    from ll j have gi: "py_getitem lel i_file = Inr (lel ! j)"
      by (simp add: py_getitem_nat)
    show ?thesis
    proof (cases "lel ! j")
      case el: (Some el)
      have "elist_true st it j = Some el"
      proof (cases "global_entry_list it")
        case None
        with Some el show ?thesis by (simp add: elist_true_def sel_true_def)
      next
        case (Some gl)
        with lists [OF j(2)] el show ?thesis by simp
      qed
      with Some gi el c j show ?thesis
        by (simp add: get_file_entrylist.simps [of st it] advances_refl)
    next
      case None
      with lists [OF j(2)] obtain gl where gl: "global_entry_list it = Some gl"
        by (cases "global_entry_list it") auto
      from j have jn: "j \<le> ?n" by simp
      from get_file_cumlen_consistent [OF c jn] j
      have e1: "get_file_cumlen st it (i_file - 1) = (resolve_files st it j, Inr (cumlen_true st it j))"
        by simp
      define it1 where "it1 = resolve_files st it j"
      note rf1 = resolve_files_advances [OF c jn, folded it1_def]
      note a1 = rf1(1)
      note c1 = advances_consistent [OF a1]
      note s1 = advances_same [OF a1]
      from j s1(5) have jn1: "Suc j \<le> length (lh5_files it1)" by simp
      from get_file_cumlen_consistent [OF c1 jn1] j
      have e2: "get_file_cumlen st it1 i_file = (resolve_files st it1 (Suc j), Inr (cumlen_true st it (Suc j)))"
        by (simp add: s1)
      define it2 where "it2 = resolve_files st it1 (Suc j)"
      note rf2 = resolve_files_advances [OF c1 jn1, folded it2_def]
      note a2 = rf2(1)
      note c2 = advances_consistent [OF a2]
      note s2 = advances_same [OF a2]
      note ih = "3.IH" [OF Some gi [unfolded None] refl e1 [symmetric] refl
          e2 [unfolded it1_def, symmetric] refl, folded it1_def, folded it2_def]
      have "\<exists>it'. get_file_cumentries st it2 (i_file - 1)
                = (it', Inr (cument_true st it2 (nat (i_file - 1 + 1))))
              \<and> advances st it2 it'
              \<and> resolved (entry_map it') = max (resolved (entry_map it2)) (nat (i_file - 1 + 1))"
      proof (rule ih [OF c2])
        show "- 1 \<le> i_file - 1" using j by simp
        show "i_file - 1 < int (length (lh5_files it2))" using j by (simp add: s1 s2)
      qed
      then obtain it3 where e3: "get_file_cumentries st it2 (i_file - 1) = (it3, Inr (cument_true st it j))"
        and a3: "advances st it2 it3"
        and k3: "resolved (entry_map it3) = max (resolved (entry_map it2)) j"
        using j by (auto simp: s1 s2)
      note c3 = advances_consistent [OF a3]
      note s3 = advances_same [OF a3]
      from a1 a2 a3 have a13: "advances st it it3" by (blast intro: advances_trans)
      from advances_global [OF a13] gl have g3: "global_entry_list it3 = Some gl" by simp
      from a13 Some obtain lel3 where l3: "local_entry_list it3 = Some lel3"
        by (auto simp: advances_def unchanged_but_maps_def)
      with c3 advances_same(5) [OF a13] have ll3: "length lel3 = ?n"
        by (simp add: consistent_def)
      have der: "Some (derive_entrylist gl (cumlen_true st it j) (cumlen_true st it (Suc j))
          (cument_true st it j)) = elist_true st it j"
        using Some gl by (simp add: elist_true_def sel_true_def)
      have s13: "elist_true st it3 j = elist_true st it j"
        using advances_same(4) [OF a13] .
      define it4 where "it4 = it3\<lparr>local_entry_list := Some (lel3[j := elist_true st it3 j])\<rparr>"
      note a4 = materialise_advances [OF c3 l3 g3, of j, folded it4_def]
      from a13 a4 have a: "advances st it it4" by (rule advances_trans)
      have res: "get_file_entrylist st it i_file = (it4, Inr (elist_true st it j))"
        using Some gi None e1 e2 e3 g3 l3 ll3 j der s13
        by (simp add: get_file_entrylist.simps [of st it] it1_def it2_def it4_def
            py_setitem_def)
      have k4: "resolved (entry_map it4) \<le> max (resolved (entry_map it)) j"
        using k3 rf1(3) rf2(3) by (simp add: it4_def)
      have "the (local_entry_list it4) ! j = elist_true st it j"
        using ll3 j s13 by (simp add: it4_def)
      with res a k4 j show ?thesis by simp
    qed
  qed
qed

section \<open>Reads and length queries keep the iterator consistent\<close>

lemma consistent_update [simp]:
  "consistent st (it\<lparr>lh5_buffer := b\<rparr>) = consistent st it"
  "consistent st (it\<lparr>current_i_entry := c\<rparr>) = consistent st it"
  "consistent st (it\<lparr>trace := tr\<rparr>) = consistent st it"
  by (simp_all add: consistent_def)

lemma advances_buffer:
  "advances st (it\<lparr>lh5_buffer := b\<rparr>) it' \<Longrightarrow> consistent st it'"
  by (simp add: advances_def)

lemma find_file_finds:
  assumes "consistent st c" "j \<le> length (lh5_files c)"
  shows "\<exists>c' r. find_file st c (int j) i = (c', Inr (int r)) \<and> advances st c c'
           \<and> j \<le> r \<and> r \<le> length (lh5_files c)
           \<and> (\<forall>m. j \<le> m \<and> m < r \<longrightarrow> cument_true st c (Suc m) \<le> i)
           \<and> (r < length (lh5_files c) \<longrightarrow> i < cument_true st c (Suc r))"
  using assms
proof (induction "length (lh5_files c) - j" arbitrary: c j)
  case 0
  then have "j = length (lh5_files c)" by simp
  with "0.prems" show ?case
    by (auto simp: find_file.simps [of st c] advances_refl)
next
  case (Suc d)
  let ?n = "length (lh5_files c)"
  from Suc.hyps(2) have jn: "j < ?n" by simp
  with cumentries_master(1) [OF Suc.prems(1), of "int j"]
  obtain c1 where e1: "get_file_cumentries st c (int j) = (c1, Inr (cument_true st c (Suc j)))"
    and a1: "advances st c c1"
    by (auto simp: add.commute [of "int j" 1])
  note s1 = advances_same [OF a1]
  note c1 = advances_consistent [OF a1]
  show ?case
  proof (cases "cument_true st c (Suc j) \<le> i")
    case False
    with jn e1 a1 show ?thesis
      by (auto simp: find_file.simps [of st c "int j"] intro!: exI [of _ j])
  next
    case True
    from Suc.hyps(2) s1(5) have d: "d = length (lh5_files c1) - Suc j" by simp
    from jn s1(5) have "Suc j \<le> length (lh5_files c1)" by simp
    from Suc.hyps(1) [OF d c1 this]
    obtain c' r where f: "find_file st c1 (int (Suc j)) i = (c', Inr (int r))"
      and a2: "advances st c1 c'" and r: "Suc j \<le> r" "r \<le> length (lh5_files c1)"
      and below: "\<forall>m. Suc j \<le> m \<and> m < r \<longrightarrow> cument_true st c1 (Suc m) \<le> i"
      and above: "r < length (lh5_files c1) \<longrightarrow> i < cument_true st c1 (Suc r)"
      by blast
    from a1 a2 have a: "advances st c c'" by (rule advances_trans)
    have below': "\<forall>m. j \<le> m \<and> m < r \<longrightarrow> cument_true st c (Suc m) \<le> i"
    proof (intro allI impI)
      fix m assume m: "j \<le> m \<and> m < r"
      show "cument_true st c (Suc m) \<le> i"
      proof (cases "m = j")
        case True
        with \<open>cument_true st c (Suc j) \<le> i\<close> show ?thesis by simp
      next
        case False
        with m below show ?thesis by (simp add: s1)
      qed
    qed
    from jn e1 True f have "find_file st c (int j) i = (c', Inr (int r))"
      by (simp add: find_file.simps [of st c "int j"] add.commute [of "int j" 1])
    with a r below' above show ?thesis
      by (auto simp: s1)
  qed
qed


lemma searchsorted_right_known_prefix:
  assumes "\<forall>j<k. f j \<le> i" "k \<le> n"
  shows "searchsorted_right (known_prefix f k n) i = (if q_max \<le> i then int n else int k)"
proof -
  have all: "\<forall>x\<in>set (map f [0..<k]). x \<le> i" using assms(1) by auto
  have "takeWhile (\<lambda>x. x \<le> i) (map f [0..<k] @ replicate (n - k) q_max)
      = map f [0..<k] @ takeWhile (\<lambda>x. x \<le> i) (replicate (n - k) q_max)"
    by (rule takeWhile_append2) (use all in auto)
  moreover have "takeWhile (\<lambda>x. x \<le> i) (replicate (n - k) q_max)
      = (if q_max \<le> i then replicate (n - k) q_max else [])"
    by (cases "n - k") (auto simp: takeWhile_replicate)
  ultimately show ?thesis
    using assms(2) by (simp add: searchsorted_right_def known_prefix_def)
qed

lemma searchsorted_right_le_length: "searchsorted_right xs i \<le> int (length xs)"
  by (simp add: searchsorted_right_def length_takeWhile_le)

lemma searchsorted_right_nonneg [simp]: "0 \<le> searchsorted_right xs i"
  by (simp add: searchsorted_right_def)

lemma locate_file_advances:
  assumes "consistent st c"
  shows "\<exists>c' r. locate_file st c i = (c', Inr (int r)) \<and> advances st c c'
           \<and> r \<le> length (lh5_files c)"
proof -
  let ?n = "length (lh5_files c)"
  define j0 where "j0 = length (takeWhile (\<lambda>x. x \<le> i) (entry_map c))"
  then have j0: "searchsorted_right (entry_map c) i = int j0"
    by (simp add: searchsorted_right_def)
  have j0n: "j0 \<le> ?n"
    using consistent_lengths(2) [OF assms] length_takeWhile_le [of _ "entry_map c"]
    by (simp add: j0_def)
  show ?thesis
  proof (cases "j0 < ?n")
    case False
    with j0 j0n assms show ?thesis
      by (auto simp: locate_file_def advances_refl)
  next
    case True
    with consistent_lengths(2) [OF assms]
    have gi: "py_getitem (entry_map c) (int j0) = Inr (entry_map c ! j0)"
      by (simp add: py_getitem_nat)
    show ?thesis
    proof (cases "entry_map c ! j0 = q_max")
      case False
      with True j0 gi assms show ?thesis
        by (auto simp: locate_file_def advances_refl)
    next
      case q: True
      from find_file_finds [OF assms j0n, of i]
      obtain c' r where "find_file st c (int j0) i = (c', Inr (int r))" "advances st c c'"
        "r \<le> ?n" by blast
      with True j0 gi q show ?thesis
        by (auto simp: locate_file_def)
    qed
  qed
qed

lemma locate_file_past_end:
  assumes "consistent st c" "cument_true st c (length (lh5_files c)) \<le> i"
  shows "\<exists>c'. locate_file st c i = (c', Inr (int (length (lh5_files c)))) \<and> advances st c c'"
proof -
  let ?n = "length (lh5_files c)"
  let ?k = "resolved (entry_map c)"
  let ?E = "\<lambda>j. cument_true st c (Suc j)"
  from assms(1) have em: "entry_map c = known_prefix ?E ?k ?n" and kn: "?k \<le> ?n"
    by (simp_all add: consistent_def)
  have le: "cument_true st c m \<le> i" if "m \<le> ?n" for m
    using cument_true_mono [OF assms(1) that order_refl] assms(2) by simp
  then have "\<forall>j<?k. ?E j \<le> i" using kn by simp
  from searchsorted_right_known_prefix [OF this kn] em
  have ss: "searchsorted_right (entry_map c) i = (if q_max \<le> i then int ?n else int ?k)"
    by simp
  show ?thesis
  proof (cases "q_max \<le> i \<or> ?k = ?n")
    case True
    with ss assms(1) show ?thesis
      by (auto simp: locate_file_def advances_refl)
  next
    case False
    with kn have k: "?k < ?n" and ssk: "searchsorted_right (entry_map c) i = int ?k"
      using ss by simp_all
    from consistent_entry_unknown [OF assms(1) order_refl k]
    have q: "entry_map c ! ?k = q_max" .
    from consistent_lengths(2) [OF assms(1)] k
    have gi: "py_getitem (entry_map c) (int ?k) = Inr (entry_map c ! ?k)"
      by (simp add: py_getitem_nat)
    from find_file_finds [OF assms(1) kn, of i]
    obtain c' r where f: "find_file st c (int ?k) i = (c', Inr (int r))" and a: "advances st c c'"
      and r: "r \<le> ?n" "r < ?n \<longrightarrow> i < cument_true st c (Suc r)"
      by blast
    have "r = ?n"
    proof (rule ccontr)
      assume "r \<noteq> ?n"
      with r have "r < ?n" "i < cument_true st c (Suc r)" by simp_all
      with le [of "Suc r"] show False by simp
    qed
    with f a k ssk gi q show ?thesis
      by (auto simp: locate_file_def)
  qed
qed

lemma read_into_buffer_consistent [simp]:
  "consistent st (read_into_buffer st it g f i_local n local_idx) = consistent st it"
  by (simp add: read_into_buffer_def)

lemma len_resolves:
  assumes "consistent st c"
  shows "\<exists>c'. len st c = (c', Inr (cument_true st c (length (lh5_files c)))) \<and> advances st c c'
           \<and> (length (lh5_files c) > 0 \<longrightarrow> resolved (entry_map c') = length (lh5_files c))"
proof (cases "length (lh5_files c)")
  case 0
  with assms consistent_lengths(2) [OF assms] show ?thesis
    by (simp add: len_def advances_refl)
next
  case (Suc m)
  with cumentries_master(1) [OF assms, of "int m"]
  obtain c' where "get_file_cumentries st c (int m) = (c', Inr (cument_true st c (Suc m)))"
    "advances st c c'" "resolved (entry_map c') = max (resolved (entry_map c)) (Suc m)"
    by (auto simp: add.commute [of "int m" 1])
  moreover from assms Suc have "resolved (entry_map c) \<le> Suc m"
    by (simp add: consistent_def)
  ultimately show ?thesis
    using Suc consistent_lengths(2) [OF assms] by (auto simp: len_def max_def)
qed


lemma consistent_bookkeeping [simp]: "consistent st (bookkeeping it b) = consistent st it"
  by (simp add: bookkeeping_def)

lemma advances_bookkeeping:
  "advances st c c' \<Longrightarrow> advances st (bookkeeping c b) (bookkeeping c' b)"
  by (simp add: advances_def) (simp add: bookkeeping_def unchanged_but_maps_def)

lemma bookkeeping_read_into_buffer [simp]:
  "bookkeeping (read_into_buffer st it g f i_local n local_idx) b = bookkeeping it b"
  by (simp add: bookkeeping_def read_into_buffer_def is_probe_def)

lemma bookkeeping_update [simp]:
  "bookkeeping (it\<lparr>lh5_buffer := x\<rparr>) b = bookkeeping it b"
  "bookkeeping (it\<lparr>current_i_entry := e\<rparr>) b = bookkeeping it b"
  by (simp_all add: bookkeeping_def)

lemma fill_buffer_advances:
  "consistent st it \<Longrightarrow> 0 \<le> i_file \<Longrightarrow>
     advances st (bookkeeping it b) (bookkeeping (fst (fill_buffer st it i_file l n)) b)"
proof (induction st it i_file l n rule: fill_buffer.induct)
  case (1 st it i_file l n)
  note c = "1.prems"(1)
  have r: "advances st (bookkeeping it b) (bookkeeping it b)" using c by (simp add: advances_refl)
  show ?case
  proof (cases "buf_len (lh5_buffer it) < n \<and> i_file < int (length (file_map it))")
    case False
    with r show ?thesis by (auto simp add: fill_buffer.simps [of st it i_file l n])
  next
    case True
    with consistent_lengths(1) [OF c] have lt: "i_file < int (length (lh5_files it))" by simp
    from cumentries_master(3) [OF c "1.prems"(2) lt]
    obtain it1 where e1: "get_file_entrylist st it i_file = (it1, Inr (elist_true st it (nat i_file)))"
      and a1: "advances st it it1" by blast
    note c1 = advances_consistent [OF a1]
    note b1 = advances_bookkeeping [OF a1, of b]
    note e1' = e1 [symmetric]
    from "1.prems"(2) have nn: "0 \<le> i_file + 1" by simp
    show ?thesis
    proof (cases "elist_true st it (nat i_file) = Some []")
      case emp: True
      from advances_trans [OF b1 "1.IH"(1) [OF True e1' refl emp c1 nn]] True e1 emp show ?thesis
        by (simp add: fill_buffer.simps [of st it i_file l n])
    next
      case ne: False
      show ?thesis
      proof (cases "start_row (elist_true st it (nat i_file)) l")
        case (Inl e)
        with True e1 ne b1 show ?thesis by (simp add: fill_buffer.simps [of st it i_file l n])
      next
        case sr: (Inr i_local)
        show ?thesis
        proof (cases "py_getitem (groups it1) i_file")
          case (Inl e)
          with True e1 ne sr b1 show ?thesis
            by (simp add: fill_buffer.simps [of st it i_file l n])
        next
          case g: (Inr g)
          show ?thesis
          proof (cases "py_getitem (lh5_files it1) i_file")
            case (Inl e)
            with True e1 ne sr g b1 show ?thesis
              by (simp add: fill_buffer.simps [of st it i_file l n])
          next
            case f: (Inr f)
            have "advances st (bookkeeping it1 b)
                (bookkeeping (fst (fill_buffer st
                  (read_into_buffer st it1 g f i_local n (elist_true st it (nat i_file)))
                  (i_file + 1) 0 n)) b)"
              using "1.IH"(2) [OF True e1' refl ne sr g f _ nn] c1 by simp
            from advances_trans [OF b1 this] True e1 ne sr g f show ?thesis
              by (simp add: fill_buffer.simps [of st it i_file l n])
          qed
        qed
      qed
    qed
  qed
qed

lemma read_own_advances:
  assumes "consistent st c"
  shows "advances st (bookkeeping c b) (bookkeeping (fst (read_own st c i n)) b)"
proof -
  let ?c0 = "c\<lparr>lh5_buffer := resize (lh5_buffer c) 0\<rparr>"
  from assms have c0: "consistent st ?c0" by simp
  have r: "advances st (bookkeeping c b) (bookkeeping c b)" using assms by (simp add: advances_refl)
  from locate_file_advances [OF c0, of i]
  obtain c1 r where l: "locate_file st ?c0 i = (c1, Inr (int r))" and a1: "advances st ?c0 c1"
    and rn: "r \<le> length (lh5_files ?c0)" by blast
  note c1 = advances_consistent [OF a1]
  note s1 = advances_same [OF a1]
  from advances_bookkeeping [OF a1, of b] have b1: "advances st (bookkeeping c b) (bookkeeping c1 b)"
    by simp
  show ?thesis
  proof (cases "n = Some 0 \<or> (case n of None \<Rightarrow> False | Some k \<Rightarrow> k > buffer_len c)")
    case True
    with r show ?thesis by (auto simp: read_own_def)
  next
    case False
    show ?thesis
    proof (cases "r = length (lh5_files c1)")
      case True
      with False l b1 show ?thesis by (auto simp: read_own_def)
    next
      case ne: False
      with rn s1(5) have rn: "int r - 1 < int (length (lh5_files c1))" "- 1 \<le> int r - 1" by simp_all
      from cumentries_master(1) [OF c1 rn(2) rn(1)]
      obtain c2 v where e2: "get_file_cumentries st c1 (int r - 1) = (c2, Inr v)"
        and a2: "advances st c1 c2" by blast
      note c2 = advances_consistent [OF a2]
      have "advances st (bookkeeping c2 b) (bookkeeping (fst (fill_buffer st c2 (int r) (i - v)
          (case n of None \<Rightarrow> buffer_len c | Some k \<Rightarrow> k))) b)"
        using c2 by (rule fill_buffer_advances) simp
      from advances_trans [OF advances_trans [OF b1 advances_bookkeeping [OF a2]] this]
      show ?thesis using False l ne e2
        by (auto simp: read_own_def split: prod.splits sum.splits)
    qed
  qed
qed

lemma map_upt_split: "k \<le> k' \<Longrightarrow> map f [0..<k] @ map f [k..<k'] = map f [0..<k']"
  using upt_add_eq_append [of 0 k "k' - k"] by (simp del: map_append add: map_append [symmetric])

lemma selection_shape:
  assumes "selection n el em = Inr (lel, gel)" "lel = Some l"
  shows "length l = n" "j < n \<Longrightarrow> (if gel = None then l ! j \<noteq> None else l ! j = None)"
  using assms
  by (auto simp: selection_def local_lists_def nth_append
      split: option.splits entry_list_arg.splits entry_mask_arg.splits if_splits sum.splits)

lemma consistent_fresh:
  assumes g: "length (groups c) = length (lh5_files c)" and ne: "lh5_files c \<noteq> []"
    and fm: "file_map c = (replicate (length (lh5_files c)) q_max)[0 := rows_at st c 0]"
    and em: "entry_map c = replicate (length (lh5_files c)) q_max"
    and sel: "selection (length (lh5_files c)) el em = Inr (local_entry_list c, global_entry_list c)"
    and no: "no_overflow st c"
  shows "consistent st c" "resolved (file_map c) = 1"
proof -
  let ?n = "length (lh5_files c)"
  let ?F = "\<lambda>j. cumlen_true st c (Suc j)"
  from ne have n: "0 < ?n" by simp
  then obtain m where m: "?n = Suc m" by (cases ?n) simp_all
  from no have b: "cumlen_true st c ?n < q_max" by (simp add: no_overflow_def)
  have "cumlen_true st c (Suc 0) \<le> cumlen_true st c ?n"
    using m by (intro cumlen_true_mono) simp
  with b have r0: "?F 0 < q_max" by simp
  have r0': "rows_at st c 0 = ?F 0" by (simp add: cumlen_true_Suc)
  have kp: "file_map c = known_prefix ?F 1 ?n"
    by (simp add: fm m known_prefix_def cumlen_true_Suc)
  from r0 have rf: "resolved (known_prefix ?F 1 ?n) = 1"
    by (intro resolved_known_prefix) simp
  with kp show rf': "resolved (file_map c) = 1" by simp
  have ke: "entry_map c = known_prefix (\<lambda>j. cument_true st c (Suc j)) 0 ?n"
    by (simp add: em known_prefix_def)
  have re: "resolved (entry_map c) = 0"
    by (simp add: em resolved_def takeWhile_replicate)
  have lists: "\<forall>lel. local_entry_list c = Some lel \<longrightarrow>
        length lel = ?n \<and>
        (\<forall>j < ?n. if global_entry_list c = None then lel ! j \<noteq> None
           else lel ! j = None \<or> lel ! j = elist_true st c j)"
    using selection_shape [OF sel] by (auto split: if_splits)
  from no have no': "\<forall>j \<le> ?n. cument_true st c j < q_max" by (simp add: no_overflow_def)
  show "consistent st c"
    unfolding consistent_def
    using g rf' re m kp ke b no' lists by (simp del: One_nat_def)
qed

lemma core_add_friend:
  "\<exists>bl' b'. core (add_friend (LH5Iterator c fr) f) = c\<lparr>buffer_len := bl', lh5_buffer := b'\<rparr>"
proof (cases "harmonize c (core f)")
  case (Pair c1 cf1)
  then have "\<exists>bl'. c1 = c\<lparr>buffer_len := bl', lh5_buffer := lh5_buffer c1\<rparr>"
    by (auto simp: harmonize_def split: if_splits intro: exI [of _ "buffer_len c"])
  then obtain bl' where "c1 = c\<lparr>buffer_len := bl', lh5_buffer := lh5_buffer c1\<rparr>" ..
  then have "c1\<lparr>lh5_buffer := x\<rparr> = c\<lparr>buffer_len := bl', lh5_buffer := x\<rparr>" for x
    by (metis (no_types) iter_core.surjective iter_core.update_convs(5,6))
  with Pair show ?thesis
    by (cases fr) (auto simp: add_friend.simps)
qed

lemma buffer_len_update [simp]:
  "cumlen_true st (it\<lparr>buffer_len := x\<rparr>) = cumlen_true st it"
  "cument_true st (it\<lparr>buffer_len := x\<rparr>) j = cument_true st it j"
  "probe (it\<lparr>buffer_len := x\<rparr>) = probe it"
  "elist_true st (it\<lparr>buffer_len := x\<rparr>) j = elist_true st it j"
  "consistent st (it\<lparr>buffer_len := x\<rparr>) = consistent st it"
  "no_overflow st (it\<lparr>buffer_len := x\<rparr>) = no_overflow st it"
proof -
  show a: "cumlen_true st (it\<lparr>buffer_len := x\<rparr>) = cumlen_true st it"
    by (rule cumlen_true_cong) simp_all
  show b: "cument_true st (it\<lparr>buffer_len := x\<rparr>) j = cument_true st it j" for j
    by (rule cument_true_cong) simp_all
  show "probe (it\<lparr>buffer_len := x\<rparr>) = probe it"
    by (rule probe_cong) simp_all
  show c: "elist_true st (it\<lparr>buffer_len := x\<rparr>) j = elist_true st it j" for j
    by (simp add: elist_true_def sel_true_def a b cong: option.case_cong)
  show "consistent st (it\<lparr>buffer_len := x\<rparr>) = consistent st it"
    by (simp add: consistent_def a b c)
  show "no_overflow st (it\<lparr>buffer_len := x\<rparr>) = no_overflow st it"
    by (simp add: no_overflow_def a b)
qed

lemma no_overflow_buffer [simp]:
  "no_overflow st (it\<lparr>lh5_buffer := b\<rparr>) = no_overflow st it"
  by (simp add: no_overflow_def)

lemma init_core:
  assumes "init st files gs el em i_st n_ent bl None fr = Inr it"
  shows "\<exists>c. (\<exists>bl' b'. core it = c\<lparr>buffer_len := bl', lh5_buffer := b'\<rparr>)
           \<and> length (groups c) = length (lh5_files c) \<and> lh5_files c \<noteq> []
           \<and> file_map c = (replicate (length (lh5_files c)) q_max)[0 := rows_at st c 0]
           \<and> entry_map c = replicate (length (lh5_files c)) q_max
           \<and> selection (length (lh5_files c)) el em = Inr (local_entry_list c, global_entry_list c)
           \<and> trace c = [probe c 0]
           \<and> ((el = None \<and> em = None) \<longleftrightarrow> local_entry_list c = None)"
proof -
  from assms obtain gls where gl: "group_lists files gs = Inr gls"
    by (auto simp: init_def split: sum.splits)
  define ds where "ds = flatten_dataset st files gls"
  from assms gl have ne: "ds \<noteq> []"
    by (auto simp: init_def ds_def split: if_splits)
  define fm where "fm = (replicate (length ds) q_max)[0 := read_n_rows st (snd (hd ds)) (fst (hd ds))]"
  have lfm: "length fm = length ds" by (simp add: fm_def)
  from assms gl ne obtain lel gel where sel: "selection (length ds) el em = Inr (lel, gel)"
    by (auto simp: init_def ds_def [symmetric] Let_def split: if_splits sum.splits)
  define c where "c = \<lparr>lh5_files = map fst ds, groups = map snd ds, file_map = fm,
                         entry_map = replicate (length ds) q_max, buffer_len = bl,
                         lh5_buffer = get_buffer st (snd (hd ds)) (fst (hd ds)) bl, i_start = i_st,
                         n_entries = n_ent, current_i_entry = 0, next_i_entry = 0,
                         local_entry_list = lel, global_entry_list = gel,
                         trace = [ReadNRows (snd (hd ds)) (fst (hd ds))]\<rparr>"
  from assms gl ne sel
  have it: "it = (case fr of None \<Rightarrow> (\<lambda>x. x) | Some f \<Rightarrow> (\<lambda>x. add_friend x f)) (LH5Iterator c None)"
    by (auto simp: init_def ds_def [symmetric] Let_def c_def fm_def split: if_splits)
  have 1: "\<exists>bl' b'. core it = c\<lparr>buffer_len := bl', lh5_buffer := b'\<rparr>"
  proof (cases fr)
    case None
    with it have "core it = c\<lparr>buffer_len := buffer_len c, lh5_buffer := lh5_buffer c\<rparr>" by simp
    then show ?thesis by blast
  next
    case (Some f)
    with it core_add_friend [of c None f] show ?thesis by simp
  qed
  from ne have hd: "hd ds = ds ! 0" by (simp add: hd_conv_nth)
  from ne have r0: "rows_at st c 0 = read_n_rows st (snd (hd ds)) (fst (hd ds))"
    by (simp add: rows_at_def c_def hd)
  from ne have p0: "probe c 0 = ReadNRows (snd (hd ds)) (fst (hd ds))"
    by (simp add: probe_def c_def hd)
  from sel have none: "(el = None \<and> em = None) \<longleftrightarrow> lel = None"
    by (auto simp: selection_def split: option.splits entry_list_arg.splits entry_mask_arg.splits
        if_splits sum.splits)
  show ?thesis
    apply (rule exI [of _ c])
    apply (intro conjI 1)
    using ne sel r0 p0 none by (simp_all add: c_def fm_def)
qed

lemma init_consistent:
  assumes "init st files gs el em i_st n_ent bl None fr = Inr it" "no_overflow st (core it)"
  shows "consistent st (core it)"
    "filter is_probe (trace (core it)) = map (probe (core it)) [0..<resolved (file_map (core it))]"
proof -
  from init_core [OF assms(1)] obtain c bl' b' where
    c: "core it = c\<lparr>buffer_len := bl', lh5_buffer := b'\<rparr>"
    and p: "length (groups c) = length (lh5_files c)" "lh5_files c \<noteq> []"
      "file_map c = (replicate (length (lh5_files c)) q_max)[0 := rows_at st c 0]"
      "entry_map c = replicate (length (lh5_files c)) q_max"
      "selection (length (lh5_files c)) el em = Inr (local_entry_list c, global_entry_list c)"
    and t: "trace c = [probe c 0]"
    by blast
  from assms(2) c have no: "no_overflow st c" by simp
  note f = consistent_fresh [OF p no]
  from f(1) c show "consistent st (core it)" by simp
  from f(2) c t show "filter is_probe (trace (core it)) =
      map (probe (core it)) [0..<resolved (file_map (core it))]"
    by (simp add: is_probe_def probe_def)
qed

lemma reachable_consistent:
  "reachable st c \<Longrightarrow>
     consistent st c \<and> filter is_probe (trace c) = map (probe c) [0..<resolved (file_map c)]"
proof (induction rule: reachable.induct)
  case (constructed files gs el em i_st n_ent bl fr it)
  then show ?case using init_consistent by blast
next
  case (after_read c i n)
  define b where "b = lh5_buffer c"
  from after_read.IH have c: "consistent st c" ..
  from read_own_advances [OF c, of b i n]
  have a: "advances st (bookkeeping c b) (bookkeeping (fst (read_own st c i n)) b)" .
  then have "consistent st (fst (read_own st c i n))"
    using advances_consistent by fastforce
  moreover from a after_read.IH
  have "filter is_probe (trace (fst (read_own st c i n))) =
      map (probe (fst (read_own st c i n))) [0..<resolved (file_map (fst (read_own st c i n)))]"
    using advances_same(2) [OF a]
    by (simp add: advances_def bookkeeping_def map_upt_split)
  ultimately show ?case ..
next
  case (after_len c)
  from after_len.IH have c: "consistent st c" ..
  from len_resolves [OF c] obtain c' where l: "len st c = (c', Inr (cument_true st c (length (lh5_files c))))"
    and a: "advances st c c'" by blast
  from a after_len.IH l advances_same(2) [OF a] show ?case
    by (simp add: advances_def map_upt_split)
qed

lemma take_known_prefix: "k \<le> k' \<Longrightarrow> take k (known_prefix f k' n) = map f [0..<k]"
  by (simp add: known_prefix_def take_map)

lemma drop_known_prefix: "drop k (known_prefix f k n) = replicate (n - k) q_max"
  by (simp add: known_prefix_def)

lemma sorted_map_upt: "(\<And>i j. i \<le> j \<Longrightarrow> j < k \<Longrightarrow> f i \<le> (f j :: int)) \<Longrightarrow> sorted (map f [0..<k])"
  by (simp add: sorted_iff_nth_mono)

lemma consistent_sorted:
  assumes "consistent st c"
  shows "sorted (take (resolved (file_map c)) (file_map c))"
    "sorted (take (resolved (entry_map c)) (entry_map c))"
    "drop (resolved (file_map c)) (file_map c)
       = replicate (length (lh5_files c) - resolved (file_map c)) q_max"
    "drop (resolved (entry_map c)) (entry_map c)
       = replicate (length (lh5_files c) - resolved (entry_map c)) q_max"
proof -
  let ?n = "length (lh5_files c)"
  let ?F = "\<lambda>j. cumlen_true st c (Suc j)"
  let ?E = "\<lambda>j. cument_true st c (Suc j)"
  from assms have fm: "file_map c = known_prefix ?F (resolved (file_map c)) ?n"
    and em: "entry_map c = known_prefix ?E (resolved (entry_map c)) ?n"
    and k: "resolved (entry_map c) \<le> resolved (file_map c)" "resolved (file_map c) \<le> ?n"
    by (simp_all add: consistent_def)
  have "sorted (map ?F [0..<resolved (file_map c)])"
    by (rule sorted_map_upt) (simp add: cumlen_true_mono)
  with take_known_prefix [OF order_refl, where f = ?F and k = "resolved (file_map c)" and n = ?n] fm
  show "sorted (take (resolved (file_map c)) (file_map c))" by simp
  have "sorted (map ?E [0..<resolved (entry_map c)])"
    using k by (intro sorted_map_upt cument_true_mono [OF assms]) simp_all
  with take_known_prefix [OF order_refl, where f = ?E and k = "resolved (entry_map c)" and n = ?n] em
  show "sorted (take (resolved (entry_map c)) (entry_map c))" by simp
  from drop_known_prefix [where f = ?F and k = "resolved (file_map c)" and n = ?n] fm
  show "drop (resolved (file_map c)) (file_map c) = replicate (?n - resolved (file_map c)) q_max"
    by simp
  from drop_known_prefix [where f = ?E and k = "resolved (entry_map c)" and n = ?n] em
  show "drop (resolved (entry_map c)) (entry_map c) = replicate (?n - resolved (entry_map c)) q_max"
    by simp
qed

lemma advances_prefix:
  assumes "consistent st c" "advances st c c'"
  shows "take (resolved (file_map c)) (file_map c') = take (resolved (file_map c)) (file_map c)"
    "take (resolved (entry_map c)) (entry_map c') = take (resolved (entry_map c)) (entry_map c)"
proof -
  let ?n = "length (lh5_files c)"
  let ?F = "\<lambda>j. cumlen_true st c (Suc j)"
  let ?E = "\<lambda>j. cument_true st c (Suc j)"
  note s = advances_same [OF assms(2)]
  from assms(1) have fm: "file_map c = known_prefix ?F (resolved (file_map c)) ?n"
    and em: "entry_map c = known_prefix ?E (resolved (entry_map c)) ?n"
    by (simp_all add: consistent_def)
  from advances_consistent [OF assms(2)] s
  have fm': "file_map c' = known_prefix ?F (resolved (file_map c')) ?n"
    and em': "entry_map c' = known_prefix ?E (resolved (entry_map c')) ?n"
    by (simp_all add: consistent_def)
  from assms(2) have k: "resolved (file_map c) \<le> resolved (file_map c')"
    "resolved (entry_map c) \<le> resolved (entry_map c')"
    by (simp_all add: advances_def)
  from take_known_prefix [OF k(1), where f = ?F and n = ?n] take_known_prefix [OF order_refl, where f = ?F and k = "resolved (file_map c)" and n = ?n]
    fm fm'
  show "take (resolved (file_map c)) (file_map c') = take (resolved (file_map c)) (file_map c)"
    by simp
  from take_known_prefix [OF k(2), where f = ?E and n = ?n] take_known_prefix [OF order_refl, where f = ?E and k = "resolved (entry_map c)" and n = ?n]
    em em'
  show "take (resolved (entry_map c)) (entry_map c') = take (resolved (entry_map c)) (entry_map c)"
    by simp
qed

lemma step_advances:
  assumes "consistent st c" "c' = fst (len st c) \<or> (\<exists>i n. c' = fst (read_own st c i n))"
  shows "advances st (bookkeeping c b) (bookkeeping c' b)"
  using assms(2)
proof
  assume "c' = fst (len st c)"
  with len_resolves [OF assms(1)] have "advances st c c'" by auto
  then show ?thesis by (rule advances_bookkeeping)
next
  assume "\<exists>i n. c' = fst (read_own st c i n)"
  with read_own_advances [OF assms(1)] show ?thesis by auto
qed

lemma bookkeeping_fields [simp]:
  "file_map (bookkeeping c b) = file_map c" "entry_map (bookkeeping c b) = entry_map c"
  "trace (bookkeeping c b) = filter is_probe (trace c)" "probe (bookkeeping c b) = probe c"
  "local_entry_list (bookkeeping c b) = local_entry_list c"
  by (simp_all add: bookkeeping_def)

lemma map_nth_zip:
  "length xs = length ys \<Longrightarrow>
     map (\<lambda>j. h (ys ! j) (xs ! j)) [0..<length xs] = map (\<lambda>(f, g). h g f) (zip xs ys)"
  by (rule nth_equalityI) simp_all

lemma no_overflow_unselected:
  assumes "local_entry_list c = None" "cumlen_true st c (length (lh5_files c)) < q_max"
  shows "no_overflow st c"
proof -
  have "cumlen_true st c j < q_max" if "j \<le> length (lh5_files c)" for j
    using cumlen_true_mono [OF that, of st c] assms(2) by simp
  with assms show ?thesis by (simp add: no_overflow_def cument_true_unselected)
qed

lemma example_reachable: "reachable example_store example_core"
proof -
  have "cumlen_true example_store example_core (length (lh5_files example_core)) < q_max"
    by (simp add: cumlen_true_def rows_at_def read_n_rows_def example_core_def example_store_def
        q_max_def upt_0_2)
  then have "no_overflow example_store (core (LH5Iterator example_core None))"
    by (intro no_overflow_unselected) (simp_all add: example_core_def)
  from reachable.constructed [OF example_init this] show ?thesis by simp
qed


section \<open>The global entry list and the per-file lists\<close>

lemma searchsorted_right_mono: "a \<le> b \<Longrightarrow> searchsorted_right xs a \<le> searchsorted_right xs b"
proof (induction xs)
  case Nil
  show ?case by (simp add: searchsorted_right_def)
next
  case (Cons x xs)
  then show ?case by (auto simp: searchsorted_right_def)
qed

lemma searchsorted_right_all:
  "(\<forall>x\<in>set xs. x \<le> v) \<Longrightarrow> searchsorted_right xs v = int (length xs)"
  by (simp add: searchsorted_right_def takeWhile_eq_all_conv [THEN iffD2])

lemma py_slice_nat:
  "0 \<le> a \<Longrightarrow> a \<le> b \<Longrightarrow> b \<le> int (length xs) \<Longrightarrow>
     py_slice xs a b = take (nat b - nat a) (drop (nat a) xs)"
  by (auto simp: py_slice_def slice_bound_def min_def nat_le_iff)

lemma set_slice_searchsorted_right:
  assumes "x \<in> set (py_slice gl a (searchsorted_right gl v))" "0 \<le> a"
  shows "x \<le> v"
proof (cases "a \<le> searchsorted_right gl v")
  case True
  let ?h = "length (takeWhile (\<lambda>x. x \<le> v) gl)"
  from True assms(2) searchsorted_right_le_length [of gl v]
  have "py_slice gl a (searchsorted_right gl v)
      = take (nat (searchsorted_right gl v) - nat a) (drop (nat a) gl)"
    by (intro py_slice_nat)
  with assms(1) have "x \<in> set (take (?h - nat a) (drop (nat a) gl))"
    by (simp add: searchsorted_right_def)
  then have "x \<in> set (drop (nat a) (take ?h gl))"
    by (simp add: drop_take)
  then have "x \<in> set (take ?h gl)" by (rule in_set_dropD)
  then have "x \<in> set (takeWhile (\<lambda>x. x \<le> v) gl)"
    by (simp add: takeWhile_eq_take [symmetric])
  then show ?thesis by (auto dest: set_takeWhileD)
next
  case False
  with assms searchsorted_right_nonneg [of gl v] show ?thesis
    by (simp add: py_slice_def slice_bound_def min_def split: if_splits)
qed

lemma count_entries_derived:
  assumes "0 \<le> prev" "prev \<le> searchsorted_right gl f_end" "0 \<le> f_start"
  shows "count_entries (Some (derive_entrylist gl f_start f_end prev)) f_end prev
           = searchsorted_right gl f_end"
proof -
  let ?hi = "searchsorted_right gl f_end"
  let ?el = "derive_entrylist gl f_start f_end prev"
  have len: "int (length ?el) = ?hi - prev"
    using assms(1,2) searchsorted_right_le_length [of gl f_end]
    by (simp add: derive_entrylist_def py_slice_nat)
  have "\<forall>x\<in>set ?el. x \<le> f_end"
    using set_slice_searchsorted_right [OF _ assms(1), of _ gl f_end] assms(3)
    by (fastforce simp: derive_entrylist_def)
  then have "searchsorted_right ?el f_end = int (length ?el)"
    by (rule searchsorted_right_all)
  with len show ?thesis by (simp add: count_entries_def)
qed

lemma cument_true_global:
  assumes "local_entry_list c \<noteq> None" "global_entry_list c = Some gl"
  shows "cument_true st c (Suc j) = searchsorted_right gl (cumlen_true st c (Suc j))"
proof (induction j)
  case 0
  have "count_entries (Some (derive_entrylist gl 0 (cumlen_true st c (Suc 0)) 0))
      (cumlen_true st c (Suc 0)) 0 = searchsorted_right gl (cumlen_true st c (Suc 0))"
    by (rule count_entries_derived) simp_all
  with assms show ?case
    by (auto simp: cument_true_Suc sel_true_def)
next
  case (Suc j)
  have "count_entries (Some (derive_entrylist gl (cumlen_true st c (Suc j))
          (cumlen_true st c (Suc (Suc j))) (searchsorted_right gl (cumlen_true st c (Suc j)))))
      (cumlen_true st c (Suc (Suc j))) (searchsorted_right gl (cumlen_true st c (Suc j)))
      = searchsorted_right gl (cumlen_true st c (Suc (Suc j)))"
    by (rule count_entries_derived)
      (simp_all add: searchsorted_right_mono cumlen_true_mono cumlen_true_nonneg)
  with assms Suc show ?case
    by (auto simp: cument_true_Suc [of st c "Suc j"] sel_true_def)
qed

lemma localized_fields [simp]:
  "lh5_files (localized st c) = lh5_files c" "groups (localized st c) = groups c"
  "file_map (localized st c) = file_map c" "entry_map (localized st c) = entry_map c"
  "global_entry_list (localized st c) = None"
  "local_entry_list (localized st c) = Some (map (elist_true st c) [0..<length (lh5_files c)])"
  "cumlen_true st (localized st c) = cumlen_true st c"
  by (simp_all add: localized_def)

lemma cument_true_localized:
  "j \<le> length (lh5_files c) \<Longrightarrow> cument_true st (localized st c) j = cument_true st c j"
proof (induction j)
  case 0
  show ?case by simp
next
  case (Suc j)
  then show ?case
    by (simp add: cument_true_Suc [of st _ j] sel_true_def elist_true_def)
qed

lemma elist_true_localized:
  "j < length (lh5_files c) \<Longrightarrow> elist_true st (localized st c) j = elist_true st c j"
  by (simp add: elist_true_def [of st "localized st c"] sel_true_def)

lemma elist_true_global:
  assumes "local_entry_list c \<noteq> None" "global_entry_list c = Some gl"
  shows "elist_true st c j
           = Some (derive_entrylist gl (cumlen_true st c j) (cumlen_true st c (Suc j))
                    (cument_true st c j))"
  using assms by (auto simp: elist_true_def sel_true_def)


lemma known_prefix_cong: "(\<And>j. j < k \<Longrightarrow> f j = g j) \<Longrightarrow> known_prefix f k n = known_prefix g k n"
  by (simp add: known_prefix_def)

lemma consistent_localized:
  assumes "consistent st c" "local_entry_list c \<noteq> None" "global_entry_list c \<noteq> None"
  shows "consistent st (localized st c)"
proof -
  let ?n = "length (lh5_files c)"
  from assms(3) obtain gl where gl: "global_entry_list c = Some gl" by auto
  from assms(1) have k: "resolved (entry_map c) \<le> ?n" by (simp add: consistent_def)
  have "known_prefix (\<lambda>j. cument_true st (localized st c) (Suc j)) (resolved (entry_map c)) ?n
      = known_prefix (\<lambda>j. cument_true st c (Suc j)) (resolved (entry_map c)) ?n"
    using k by (intro known_prefix_cong cument_true_localized) simp
  moreover have "\<forall>j<?n. elist_true st c j \<noteq> None"
    by (simp add: elist_true_global [OF assms(2) gl])
  ultimately show ?thesis
    using assms(1) by (simp add: consistent_def cument_true_localized)
qed

lemma cached_cumlen:
  assumes "- 1 \<le> i" "i < int (length (file_map d))" "0 \<le> i \<longrightarrow> file_map d ! nat i \<noteq> q_max"
  shows "get_file_cumlen st d i = (d, Inr (if i < 0 then 0 else file_map d ! nat i))"
  using assms by (simp add: get_file_cumlen_def py_getitem_def)

lemma cached_cumentries:
  assumes "- 1 \<le> i" "i < int (length (entry_map d))" "0 \<le> i \<longrightarrow> entry_map d ! nat i \<noteq> q_max"
  shows "get_file_cumentries st d i = (d, Inr (if i < 0 then 0 else entry_map d ! nat i))"
  using assms by (simp add: get_file_cumentries.simps py_getitem_def)

lemma cached_entrylist:
  assumes "local_entry_list d = Some lel" "0 \<le> i" "i < int (length lel)" "lel ! nat i = Some el"
  shows "get_file_entrylist st d i = (d, Inr (Some el))"
  using assms by (simp add: get_file_entrylist.simps py_getitem_def)

lemma np_slice_assign_segment:
  assumes "a \<le> b" "b \<le> length gl"
  shows "np_slice_assign (take a gl @ replicate (length gl - a) 0) (int a) (int b)
           (py_slice gl (int a) (int b))
         = Inr (take b gl @ replicate (length gl - b) (0::int))"
proof -
  define xs where "xs = take a gl @ replicate (length gl - a) (0::int)"
  define vs where "vs = py_slice gl (int a) (int b)"
  from assms have vs: "vs = take (b - a) (drop a gl)"
    by (simp add: vs_def py_slice_nat)
  from assms have len: "length xs = length gl" by (simp add: xs_def)
  from assms have sa: "slice_bound (length xs) (int a) = a" and sb: "slice_bound (length xs) (int b) = b"
    by (simp_all add: len slice_bound_def)
  from assms have lv: "length vs = b - a" by (simp add: vs)
  from assms have tk: "take a xs = take a gl" by (simp add: xs_def)
  from assms have dr: "drop (a + (b - a)) xs = replicate (length gl - b) 0" by (simp add: xs_def)
  have t: "take a gl @ take (b - a) (drop a gl) = take b gl"
    using assms take_add [of a "b - a" gl] by simp
  have "np_slice_assign xs (int a) (int b) vs = Inr (take a xs @ vs @ drop (a + (b - a)) xs)"
    by (simp add: np_slice_assign_def sa sb lv Let_def)
  also have "\<dots> = Inr (take b gl @ replicate (length gl - b) 0)"
    by (simp add: tk dr vs t [symmetric])
  finally show ?thesis by (simp add: xs_def vs_def)
qed

lemma global_entrylist_loop_rebuilds:
  fixes F :: "nat \<Rightarrow> int" and E :: "nat \<Rightarrow> nat"
  assumes len: "length (file_map d) = n" "length (entry_map d) = n" "length (lh5_files d) = n"
    and fm: "\<forall>j<n. file_map d ! j = F (Suc j) \<and> F (Suc j) \<noteq> q_max"
    and em: "\<forall>j<n. entry_map d ! j = int (E (Suc j)) \<and> int (E (Suc j)) \<noteq> q_max"
    and z: "F 0 = 0" "E 0 = 0"
    and lel: "local_entry_list d = Some lel" "length lel = n"
      "\<forall>j<n. lel ! j = Some (map (\<lambda>x. x - F j) (py_slice gl (int (E j)) (int (E (Suc j)))))"
    and mono: "\<forall>j<n. E j \<le> E (Suc j)" "\<forall>j\<le>n. E j \<le> length gl" "E n = length gl"
    and j: "j \<le> n"
  shows "global_entrylist_loop st
           (d\<lparr>global_entry_list := Some (take (E j) gl @ replicate (length gl - E j) 0)\<rparr>) (int j)
         = (d\<lparr>global_entry_list := Some gl\<rparr>, Inr ())"
  using j
proof (induction "n - j" arbitrary: j)
  case 0
  then have "j = n" by simp
  with len mono(3) show ?case
    by (simp add: global_entrylist_loop.simps [of st _ "int n"])
next
  case (Suc m)
  then have jn: "j < n" by simp
  let ?d = "d\<lparr>global_entry_list := Some (take (E j) gl @ replicate (length gl - E j) 0)\<rparr>"
  have lo: "get_file_cumentries st ?d (int j - 1) = (?d, Inr (int (E j)))"
  proof (cases j)
    case 0
    with z show ?thesis by (simp add: get_file_cumentries.simps)
  next
    case (Suc i)
    with jn em len have "get_file_cumentries st ?d (int i)
        = (?d, Inr (if int i < 0 then 0 else entry_map ?d ! nat (int i)))"
      by (intro cached_cumentries) simp_all
    with Suc jn em show ?thesis by simp
  qed
  have "get_file_cumentries st ?d (int j)
        = (?d, Inr (if int j < 0 then 0 else entry_map ?d ! nat (int j)))"
    using jn em len by (intro cached_cumentries) simp_all
  with jn em have hi: "get_file_cumentries st ?d (int j) = (?d, Inr (int (E (Suc j))))" by simp
  have fs: "get_file_cumlen st ?d (int j - 1) = (?d, Inr (F j))"
  proof (cases j)
    case 0
    with z show ?thesis by (simp add: get_file_cumlen_def)
  next
    case (Suc i)
    with jn fm len have "get_file_cumlen st ?d (int i)
        = (?d, Inr (if int i < 0 then 0 else file_map ?d ! nat (int i)))"
      by (intro cached_cumlen) simp_all
    with Suc jn fm show ?thesis by simp
  qed
  have el: "get_file_entrylist st ?d (int j)
      = (?d, Inr (Some (map (\<lambda>x. x - F j) (py_slice gl (int (E j)) (int (E (Suc j)))))))"
    using jn lel by (intro cached_entrylist [where lel = lel]) simp_all
  have undo: "map (\<lambda>x. x + F j) (map (\<lambda>x. x - F j) (py_slice gl (int (E j)) (int (E (Suc j)))))
      = py_slice gl (int (E j)) (int (E (Suc j)))"
    by (simp add: comp_def)
  from jn mono have b: "E j \<le> E (Suc j)" "E (Suc j) \<le> length gl" by simp_all
  note asg = np_slice_assign_segment [OF b]
  from Suc.hyps(2) have m: "m = n - Suc j" by simp
  from jn have "Suc j \<le> n" by simp
  note ih = Suc.hyps(1) [OF m this]
  from jn len lo hi fs el undo asg ih show ?case
    by (simp add: global_entrylist_loop.simps [of st ?d "int j"] add.commute [of "int j" 1])
qed

lemma selection_global:
  "selection n el em = Inr (lel, gel) \<Longrightarrow> gel \<noteq> None \<Longrightarrow> lel \<noteq> None"
  by (auto simp: selection_def split: option.splits entry_list_arg.splits
      entry_mask_arg.splits if_splits sum.splits)

lemma read_own_selection:
  assumes "consistent st c"
  shows "global_entry_list (fst (read_own st c i n)) = global_entry_list c"
    "local_entry_list (fst (read_own st c i n)) = None \<longleftrightarrow> local_entry_list c = None"
proof -
  from read_own_advances [OF assms, of "lh5_buffer c" i n]
  have "unchanged_but_maps (bookkeeping c (lh5_buffer c))
      (bookkeeping (fst (read_own st c i n)) (lh5_buffer c))"
    by (simp add: advances_def)
  then show "global_entry_list (fst (read_own st c i n)) = global_entry_list c"
    "local_entry_list (fst (read_own st c i n)) = None \<longleftrightarrow> local_entry_list c = None"
    by (simp_all add: unchanged_but_maps_def bookkeeping_def)
qed

lemma len_selection:
  assumes "consistent st c"
  shows "global_entry_list (fst (len st c)) = global_entry_list c"
    "local_entry_list (fst (len st c)) = None \<longleftrightarrow> local_entry_list c = None"
proof -
  from len_resolves [OF assms] have "advances st c (fst (len st c))" by auto
  then have "unchanged_but_maps c (fst (len st c))" by (simp add: advances_def)
  then show "global_entry_list (fst (len st c)) = global_entry_list c"
    "local_entry_list (fst (len st c)) = None \<longleftrightarrow> local_entry_list c = None"
    by (simp_all add: unchanged_but_maps_def)
qed

lemma reachable_selection:
  "reachable st c \<Longrightarrow> global_entry_list c \<noteq> None \<longrightarrow> local_entry_list c \<noteq> None"
proof (induction rule: reachable.induct)
  case (constructed files gs el em i_st n_ent bl fr it)
  from init_core [OF constructed(1)] obtain c bl' b' where
    c: "core it = c\<lparr>buffer_len := bl', lh5_buffer := b'\<rparr>"
    and s: "selection (length (lh5_files c)) el em = Inr (local_entry_list c, global_entry_list c)"
    by blast
  from selection_global [OF s]
  have "global_entry_list c \<noteq> None \<longrightarrow> local_entry_list c \<noteq> None" by blast
  with c show ?case by simp
next
  case (after_read c i n)
  from reachable_consistent [OF after_read.hyps] have "consistent st c" ..
  from read_own_selection [OF this, of i n] after_read.IH show ?case by simp
next
  case (after_len c)
  from reachable_consistent [OF after_len.hyps] have "consistent st c" ..
  from len_selection [OF this] after_len.IH show ?case by simp
qed

lemma cument_true_nonneg: "consistent st c \<Longrightarrow> j \<le> length (lh5_files c) \<Longrightarrow> 0 \<le> cument_true st c j"
  using cument_true_mono [of st c 0 j] by simp

lemma cument_true_total:
  assumes "local_entry_list c \<noteq> None" "global_entry_list c = Some gl"
    "\<forall>x\<in>set gl. 0 \<le> x \<and> x < cumlen_true st c (length (lh5_files c))"
  shows "cument_true st c (length (lh5_files c)) = int (length gl)"
proof (cases "length (lh5_files c)")
  case 0
  with assms(3) have "gl = []" by (cases gl) auto
  with 0 show ?thesis by simp
next
  case (Suc m)
  from assms(3) have "\<forall>x\<in>set gl. x \<le> cumlen_true st c (length (lh5_files c))" by auto
  from searchsorted_right_all [OF this] cument_true_global [OF assms(1,2), of st m] Suc
  show ?thesis by simp
qed

lemma localized_rebuilds:
  assumes c: "consistent st c" and l: "local_entry_list c \<noteq> None"
    and g: "global_entry_list c = Some gl"
    and r: "\<forall>x\<in>set gl. 0 \<le> x \<and> x < cumlen_true st c (length (lh5_files c))"
  shows "snd (get_global_entrylist st (localized st c)) = Inr (Some gl)"
proof -
  let ?n = "length (lh5_files c)"
  let ?c2 = "localized st c"
  define F where "F = cumlen_true st c"
  define E where "E j = nat (cument_true st c j)" for j
  from g have c2: "consistent st ?c2" by (intro consistent_localized c l) simp
  from len_resolves [OF c2] obtain c3 where
    len: "len st ?c2 = (c3, Inr (cument_true st ?c2 ?n))" and a: "advances st ?c2 c3"
    and k0: "0 < ?n \<longrightarrow> resolved (entry_map c3) = ?n" by auto
  note c3 = advances_consistent [OF a]
  note s = advances_same [OF a]
  from s(5) have n3: "length (lh5_files c3) = ?n" by simp
  from c3 n3 have ke: "resolved (entry_map c3) \<le> resolved (file_map c3)"
    and kf: "resolved (file_map c3) \<le> ?n" by (simp_all add: consistent_def)
  with k0 have k: "resolved (entry_map c3) = ?n" "resolved (file_map c3) = ?n" by auto
  have tot: "cument_true st c ?n = int (length gl)" by (rule cument_true_total [OF l g r])
  have E: "int (E j) = cument_true st c j" if "j \<le> ?n" for j
    using cument_true_nonneg [OF c that] by (simp add: E_def)
  have fm: "\<forall>j<?n. file_map c3 ! j = F (Suc j) \<and> F (Suc j) \<noteq> q_max"
  proof (intro allI impI)
    fix j assume j: "j < ?n"
    from c3 k n3 have "file_map c3 = known_prefix (\<lambda>j. cumlen_true st c3 (Suc j)) ?n ?n"
      by (simp add: consistent_def)
    with j have "file_map c3 ! j = cumlen_true st c3 (Suc j)"
      by (simp add: known_prefix_nth_lt)
    moreover from consistent_cumlen_bound [OF c, of "Suc j"] j have "cumlen_true st c (Suc j) < q_max"
      by simp
    ultimately show "file_map c3 ! j = F (Suc j) \<and> F (Suc j) \<noteq> q_max"
      using s(1) by (simp add: F_def)
  qed
  have em: "\<forall>j<?n. entry_map c3 ! j = int (E (Suc j)) \<and> int (E (Suc j)) \<noteq> q_max"
  proof (intro allI impI)
    fix j assume j: "j < ?n"
    with k have "entry_map c3 ! j = cument_true st c3 (Suc j)"
      by (intro consistent_entry_known [OF c3]) simp
    also have "\<dots> = cument_true st c (Suc j)"
      using j by (simp add: s(3) cument_true_localized)
    finally have 1: "entry_map c3 ! j = int (E (Suc j))" using j by (simp add: E)
    from c j have "cument_true st c (Suc j) < q_max" by (simp add: consistent_def)
    with 1 j show "entry_map c3 ! j = int (E (Suc j)) \<and> int (E (Suc j)) \<noteq> q_max"
      by (simp add: E)
  qed
  from a have ll: "local_entry_list c3 = Some (map (elist_true st c) [0..<?n])"
    by (simp add: advances_def)
  have lel: "\<forall>j<?n. map (elist_true st c) [0..<?n] ! j
      = Some (map (\<lambda>x. x - F j) (py_slice gl (int (E j)) (int (E (Suc j)))))"
  proof (intro allI impI)
    fix j assume j: "j < ?n"
    then show "map (elist_true st c) [0..<?n] ! j
      = Some (map (\<lambda>x. x - F j) (py_slice gl (int (E j)) (int (E (Suc j)))))"
      by (simp add: elist_true_global [OF l g] derive_entrylist_def F_def E
          cument_true_global [OF l g, symmetric])
  qed
  have mono: "\<forall>j<?n. E j \<le> E (Suc j)"
    using cument_true_mono [OF c] by (simp add: E_def nat_mono)
  have bound: "\<forall>j\<le>?n. E j \<le> length gl"
  proof (intro allI impI)
    fix j assume "j \<le> ?n"
    from cument_true_mono [OF c this order_refl] tot show "E j \<le> length gl"
      by (simp add: E_def)
  qed
  have En: "E ?n = length gl" using tot by (simp add: E_def)
  have z: "F 0 = 0" "E 0 = 0" by (simp_all add: F_def E_def)
  from consistent_lengths [OF c3] n3
  have lens: "length (file_map c3) = ?n" "length (entry_map c3) = ?n" by simp_all
  have "global_entrylist_loop st
      (c3\<lparr>global_entry_list := Some (take (E 0) gl @ replicate (length gl - E 0) 0)\<rparr>) (int 0)
      = (c3\<lparr>global_entry_list := Some gl\<rparr>, Inr ())"
    by (rule global_entrylist_loop_rebuilds [OF lens n3 fm em z ll _ lel mono bound En]) simp_all
  with z have loop: "global_entrylist_loop st
      (c3\<lparr>global_entry_list := Some (replicate (length gl) 0)\<rparr>) 0
      = (c3\<lparr>global_entry_list := Some gl\<rparr>, Inr ())"
    by simp
  from tot have "cument_true st ?c2 ?n = int (length gl)" by (simp add: cument_true_localized)
  with len loop show ?thesis
    by (simp add: get_global_entrylist_def)
qed

lemma no_overflow_global:
  assumes "local_entry_list c \<noteq> None" "global_entry_list c = Some gl"
    "cumlen_true st c (length (lh5_files c)) < q_max" "int (length gl) < q_max"
  shows "no_overflow st c"
proof -
  have "cument_true st c j < q_max" for j
  proof (cases j)
    case 0
    then show ?thesis by simp
  next
    case (Suc i)
    with cument_true_global [OF assms(1,2), of st i]
      searchsorted_right_le_length [of gl "cumlen_true st c (Suc i)"] assms(4)
    show ?thesis by simp
  qed
  with assms(3) show ?thesis by (simp add: no_overflow_def)
qed

lemma example_selected_reachable: "reachable example_store example_selected"
proof -
  have "cumlen_true example_store example_selected (length (lh5_files example_selected)) < q_max"
    by (simp add: cumlen_true_def rows_at_def read_n_rows_def example_core_def example_store_def
        example_selected_def q_max_def upt_0_2)
  then have "no_overflow example_store (core (LH5Iterator example_selected None))"
    by (intro no_overflow_global [where gl = "[1, 3, 10]"])
      (simp_all add: example_selected_def example_core_def q_max_def)
  from reachable.constructed [OF example_selected_init this] show ?thesis by simp
qed


lemma example_selected_in_range:
  "\<forall>x\<in>set [1, 3, 10]. 0 \<le> x
      \<and> x < cumlen_true example_store example_selected (length (lh5_files example_selected))"
proof -
  have "cumlen_true example_store example_selected (length (lh5_files example_selected)) = 12"
    by (simp add: cumlen_true_def rows_at_def read_n_rows_def example_core_def example_store_def
        example_selected_def upt_0_2)
  then show ?thesis by simp
qed



lemma example_selected_lists:
  "elist_true example_store example_selected 0 = Some [1, 3]"
  "elist_true example_store example_selected 1 = Some [5]"
  by (simp_all add: elist_true_def sel_true_def cument_true_Suc cumlen_true_def rows_at_def
      read_n_rows_def count_entries_def derive_entrylist_def py_slice_def slice_bound_def
      searchsorted_right_def example_core_def example_store_def example_selected_def)




section \<open>Reading: the cursor, the friend and the early returns\<close>

lemma rows_resize_0 [simp]: "rows (resize b 0) = []"
  by (simp add: resize_def)



lemma fill_buffer_cursor:
  "current_i_entry (fst (fill_buffer st it i_file l n)) = current_i_entry it"
proof (induction st it i_file l n rule: fill_buffer.induct)
  case (1 st it i_file l n)
  show ?case
  proof (cases "buf_len (lh5_buffer it) < n \<and> i_file < int (length (file_map it))")
    case False
    then show ?thesis by (auto simp add: fill_buffer.simps [of st it i_file l n])
  next
    case True
    obtain it1 r1 where e1: "get_file_entrylist st it i_file = (it1, r1)"
      by (cases "get_file_entrylist st it i_file")
    then have "unchanged_but_maps it it1" by (rule get_file_entrylist_frame')
    then have u1: "current_i_entry it1 = current_i_entry it" by (simp add: unchanged_but_maps_def)
    show ?thesis
    proof (cases r1)
      case (Inl e)
      with True e1 u1 show ?thesis by (simp add: fill_buffer.simps [of st it i_file l n])
    next
      case (Inr local_idx)
      note e1' = e1 [symmetric, unfolded Inr]
      show ?thesis
      proof (cases "local_idx = Some []")
        case emp: True
        from "1.IH"(1) [OF True e1' refl emp]
        have "current_i_entry (fst (fill_buffer st it1 (i_file + 1) 0 n)) = current_i_entry it1" .
        with True e1 Inr emp u1 show ?thesis by (simp add: fill_buffer.simps [of st it i_file l n])
      next
        case ne: False
        show ?thesis
        proof (cases "start_row local_idx l")
          case (Inl e)
          with True e1 Inr ne u1 show ?thesis by (simp add: fill_buffer.simps [of st it i_file l n])
        next
          case sr: (Inr i_local)
          show ?thesis
          proof (cases "py_getitem (groups it1) i_file")
            case (Inl e)
            with True e1 Inr ne sr u1 show ?thesis
              by (simp add: fill_buffer.simps [of st it i_file l n])
          next
            case g: (Inr g)
            show ?thesis
            proof (cases "py_getitem (lh5_files it1) i_file")
              case (Inl e)
              with True e1 Inr ne sr g u1 show ?thesis
                by (simp add: fill_buffer.simps [of st it i_file l n])
            next
              case f: (Inr f)
              from "1.IH"(2) [OF True e1' refl ne sr g f]
              have "current_i_entry (fst (fill_buffer st (read_into_buffer st it1 g f i_local n local_idx)
                      (i_file + 1) 0 n)) = current_i_entry it1"
                by (simp add: read_into_buffer_def)
              with True e1 Inr ne sr g f u1 show ?thesis
                by (simp add: fill_buffer.simps [of st it i_file l n])
            qed
          qed
        qed
      qed
    qed
  qed
qed


text \<open>How \<^verbatim>\<open>read\<close> ends before the friend's read.\<close>

lemma read_own_zero:
  "read_own st c i (Some 0) = (c\<lparr>lh5_buffer := resize (lh5_buffer c) 0\<rparr>, Inr False)"
  by (simp add: read_own_def)

lemma read_own_too_many:
  "0 \<le> buffer_len c \<Longrightarrow> buffer_len c < n \<Longrightarrow>
     read_own st c i (Some n) = (c\<lparr>lh5_buffer := resize (lh5_buffer c) 0\<rparr>, Inl ValueError)"
  by (simp add: read_own_def)







text \<open>
  C10 (\<^verbatim>\<open>read\<close> with \<open>n\<close> above the capacity empties the buffer before it raises). The
  iterator after the failed call is the iterator before with its buffer resized to
  length 0, whatever the buffer held.
\<close>

theorem read_too_many_discards_buffer:
  assumes "0 \<le> buffer_len (core it)" and "buffer_len (core it) < n"
  shows "read st it i (Some n) =
           (LH5Iterator ((core it)\<lparr>lh5_buffer := resize (lh5_buffer (core it)) 0\<rparr>) (friend it),
            Inl ValueError)
         \<and> rows (lh5_buffer (core (fst (read st it i (Some n))))) = []"
  using assms by (cases it) (simp add: read.simps read_own_too_many)

theorem read_too_many_discards_buffer_witness:
  "rows (lh5_buffer (core (LH5Iterator example_core None))) = [0, 0, 0, 0]
   \<and> snd (read example_store (LH5Iterator example_core None) 0 (Some 5)) = Inl ValueError
   \<and> rows (lh5_buffer (core (fst (read example_store (LH5Iterator example_core None) 0 (Some 5))))) = []"
  using read_too_many_discards_buffer [of "LH5Iterator example_core None" 5 example_store 0]
  by (simp add: example_core_def)

lemma read_own_past_end:
  assumes "consistent st c" "cument_true st c (length (lh5_files c)) \<le> i"
    "case n of None \<Rightarrow> True | Some k \<Rightarrow> k \<le> buffer_len c"
  shows "\<exists>c1. read_own st c i n = (c1, Inr False) \<and> lh5_buffer c1 = resize (lh5_buffer c) 0"
proof (cases "n = Some 0")
  case True
  then show ?thesis by (simp add: read_own_zero)
next
  case n0: False
  let ?c0 = "c\<lparr>lh5_buffer := resize (lh5_buffer c) 0\<rparr>"
  from assms(1) have c0: "consistent st ?c0" by simp
  from assms(2) have "cument_true st ?c0 (length (lh5_files ?c0)) \<le> i" by simp
  from locate_file_past_end [OF c0 this]
  obtain c1 where l: "locate_file st ?c0 i = (c1, Inr (int (length (lh5_files ?c0))))"
    and a: "advances st ?c0 c1" by blast
  from a have u: "lh5_files c1 = lh5_files c" "lh5_buffer c1 = resize (lh5_buffer c) 0"
    by (simp_all add: advances_def unchanged_but_maps_def)
  from assms(3) have ok: "\<not> (case n of None \<Rightarrow> False | Some k \<Rightarrow> k > buffer_len c)"
    by (cases n) simp_all
  from n0 ok l u show ?thesis by (simp add: read_own_def)
qed

text \<open>
  C8 (\<^verbatim>\<open>read\<close> with \<open>n\<close> above the capacity raises the invalid-argument error; with
  \<open>n = 0\<close> it returns the empty buffer and reads nothing; from an entry at or past the
  end of the dataset it returns a short, possibly empty, buffer and does not raise). A
  call with \<open>k\<close> above \<open>buffer_len\<close> and not 0 raises \<^verbatim>\<open>ValueError\<close>. A call with
  \<open>n = 0\<close> returns the buffer emptied, and changes nothing else of the iterator and
  of its friend, so the trace of the calls of the store is as before. On an iterator
  after any sequence of reads and length queries, a call at an entry that is not below
  what \<^verbatim>\<open>__len__\<close> returns, with no \<open>n\<close> or an \<open>n\<close> within the capacity, returns the
  buffer emptied.
\<close>

theorem read_refuses_returns_empty:
  "(k \<noteq> 0 \<and> buffer_len (core it) < k \<longrightarrow> snd (read st it i (Some k)) = Inl ValueError)
   \<and> read st it i (Some 0)
       = (LH5Iterator ((core it)\<lparr>lh5_buffer := resize (lh5_buffer (core it)) 0\<rparr>) (friend it),
          Inr (resize (lh5_buffer (core it)) 0))
   \<and> trace (core (fst (read st it i (Some 0)))) = trace (core it)
   \<and> rows (resize (lh5_buffer (core it)) 0) = []
   \<and> (reachable st (core it) \<and> snd (len st (core it)) = Inr n_total \<and> n_total \<le> i
        \<and> (case n of None \<Rightarrow> True | Some m \<Rightarrow> m \<le> buffer_len (core it))
      \<longrightarrow> snd (read st it i n) = Inr (resize (lh5_buffer (core it)) 0))"
proof -
  obtain c fr where it: "it = LH5Iterator c fr" by (cases it)
  have a: "snd (read st it i (Some k)) = Inl ValueError" if "k \<noteq> 0" "buffer_len (core it) < k"
    using that by (simp add: it read.simps read_own_def)
  have b: "read st it i (Some 0)
       = (LH5Iterator ((core it)\<lparr>lh5_buffer := resize (lh5_buffer (core it)) 0\<rparr>) (friend it),
          Inr (resize (lh5_buffer (core it)) 0))"
    by (simp add: it read.simps read_own_zero)
  have d: "snd (read st it i n) = Inr (resize (lh5_buffer (core it)) 0)"
    if r: "reachable st (core it)" and l: "snd (len st (core it)) = Inr n_total" and t: "n_total \<le> i"
      and n: "case n of None \<Rightarrow> True | Some m \<Rightarrow> m \<le> buffer_len (core it)"
  proof -
    from reachable_consistent [OF r] have c: "consistent st c" by (simp add: it)
    from len_resolves [OF c] l have "n_total = cument_true st c (length (lh5_files c))"
      by (auto simp: it)
    with t have "cument_true st c (length (lh5_files c)) \<le> i" by simp
    moreover from n have "case n of None \<Rightarrow> True | Some m \<Rightarrow> m \<le> buffer_len c"
      by (cases n) (simp_all add: it)
    ultimately obtain c1 where "read_own st c i n = (c1, Inr False)"
      "lh5_buffer c1 = resize (lh5_buffer c) 0"
      using read_own_past_end [OF c] by blast
    then show ?thesis by (simp add: it read.simps)
  qed
  from a b d show ?thesis by simp
qed

theorem read_refuses_returns_empty_witness:
  "snd (read example_store (LH5Iterator example_core None) 0 (Some 5)) = Inl ValueError
   \<and> snd (read example_store (LH5Iterator example_core None) 3 (Some 0))
       = Inr \<lparr>columns = [''x''], rows = [], pad = 0\<rparr>
   \<and> reachable example_store example_core
   \<and> snd (len example_store example_core) = Inr 12
   \<and> snd (read example_store (LH5Iterator example_core None) 12 None)
       = Inr \<lparr>columns = [''x''], rows = [], pad = 0\<rparr>"
  using read_refuses_returns_empty [where k = 5 and it = "LH5Iterator example_core None"
      and st = example_store and i = 12 and n_total = 12 and n = None]
    read_refuses_returns_empty [where k = 5 and it = "LH5Iterator example_core None"
      and st = example_store and i = 0 and n_total = 12 and n = None]
    read_refuses_returns_empty [where k = 5 and it = "LH5Iterator example_core None"
      and st = example_store and i = 3 and n_total = 12 and n = None]
    example_reachable example_len
  by (simp add: example_core_def resize_def)



section \<open>Friends\<close>

lemma join_columns: "set (columns (join b other)) = set (columns b) \<union> set (columns other)"
  by (auto simp: join_def)

lemma join_rows [simp]: "rows (join b other) = rows b"
  by (simp add: join_def)


text \<open>
  C9 (\<^verbatim>\<open>add_friend\<close>). An argument that is not an iterator raises and leaves \<open>p\<close> as it
  is. With an iterator \<open>f\<close>: the capacity of \<open>p\<close> becomes the minimum of the two, and the
  buffer of \<open>p\<close> is resized when it was the larger; the columns of \<open>p\<close>'s buffer become
  those of both buffers; and the friend of \<open>p\<close> is \<open>f\<close> with the minimum for capacity
  (its buffer resized when it was the larger), handed to the \<^verbatim>\<open>add_friend\<close> of the
  friend \<open>p\<close> already had when there is one.
\<close>

theorem add_friend_harmonizes_joins_chains:
  "add_friend_checked p NotAnIterator = (p, Inl ValueError)
   \<and> snd (add_friend_checked p (Iterator f)) = Inr ()
   \<and> buffer_len (core (fst (add_friend_checked p (Iterator f))))
       = min (buffer_len (core p)) (buffer_len (core f))
   \<and> rows (lh5_buffer (core (fst (add_friend_checked p (Iterator f)))))
       = (if buffer_len (core f) < buffer_len (core p)
          then rows (resize (lh5_buffer (core p)) (buffer_len (core f)))
          else rows (lh5_buffer (core p)))
   \<and> set (columns (lh5_buffer (core (fst (add_friend_checked p (Iterator f))))))
       = set (columns (lh5_buffer (core p))) \<union> set (columns (lh5_buffer (core f)))
   \<and> friend (fst (add_friend_checked p (Iterator f)))
       = Some ((case friend p of None \<Rightarrow> (\<lambda>x. x) | Some g \<Rightarrow> add_friend g)
           (LH5Iterator
              ((core f)\<lparr>buffer_len := min (buffer_len (core p)) (buffer_len (core f)),
                  lh5_buffer :=
                    (if buffer_len (core p) < buffer_len (core f)
                     then resize (lh5_buffer (core f)) (buffer_len (core p))
                     else lh5_buffer (core f))\<rparr>)
              (friend f)))"
proof -
  obtain c fr where p: "p = LH5Iterator c fr" by (cases p)
  show ?thesis
    unfolding p
    by (cases fr)
      (auto simp: add_friend_checked_def add_friend.simps harmonize_def join_columns resize_def min_def)
qed

theorem add_friend_harmonizes_joins_chains_witness:
  "add_friend_checked (LH5Iterator example_core None) (Iterator (LH5Iterator example_friend None))
     = (LH5Iterator
          (example_core\<lparr>buffer_len := 2,
             lh5_buffer := \<lparr>columns = [''x'', ''y''], rows = [0, 0], pad = 0\<rparr>\<rparr>)
          (Some (LH5Iterator example_friend None)), Inr ())
   \<and> buffer_len example_core = 4 \<and> buffer_len example_friend = 2"
  using add_friend_harmonizes_joins_chains
    [of "LH5Iterator example_core None" "LH5Iterator example_friend None"]
  by (simp add: add_friend_checked_def add_friend.simps harmonize_def join_def resize_def
      example_core_def example_friend_def)



section \<open>Map over one worker and over several\<close>

lemma linspace_int_single [simp]:
  "linspace_int n (Suc 0) 0 = 0" "linspace_int n (Suc 0) (Suc 0) = int n"
  by (simp_all add: linspace_int_def)





lemma collect_map_Inr [simp]: "collect (map Inr xs) = Inr xs"
  by (induction xs) simp_all





section \<open>The length and the cumulative arrays\<close>

text \<open>
  C4 (with no entry selection, the length of the iterator is the sum of the row counts of
  the dataset elements, in order). For an iterator built by \<^verbatim>\<open>__init__\<close> with neither
  \<^verbatim>\<open>entry_list\<close> nor \<^verbatim>\<open>entry_mask\<close>, which is what \<open>local_entry_list c = None\<close>
  says, \<^verbatim>\<open>__len__\<close> returns the sum of \<open>read_n_rows\<close> over the (file, group) pairs of
  the dataset, at any moment of the iterator's life. The dataset is one whose total stays
  below \<open>q_max\<close>, and the file array is the one \<^verbatim>\<open>__init__\<close> builds.
\<close>

theorem len_sums_row_counts:
  assumes "reachable st c" and "local_entry_list c = None"
  shows "snd (len st c)
           = Inr (sum_list (map (\<lambda>(f, g). read_n_rows st g f) (zip (lh5_files c) (groups c))))"
proof -
  from reachable_consistent [OF assms(1)] have c: "consistent st c" ..
  from len_resolves [OF c] have "snd (len st c) = Inr (cument_true st c (length (lh5_files c)))"
    by auto
  also have "cument_true st c (length (lh5_files c)) = cumlen_true st c (length (lh5_files c))"
    using assms(2) by (rule cument_true_unselected)
  also have "\<dots> = sum_list (map (\<lambda>(f, g). read_n_rows st g f) (zip (lh5_files c) (groups c)))"
    using map_nth_zip [OF consistent_lengths(3) [OF c, symmetric], of "read_n_rows st"]
    by (simp add: cumlen_true_def rows_at_def [abs_def])
  finally show ?thesis .
qed

theorem len_sums_row_counts_witness:
  "reachable example_store example_core \<and> local_entry_list example_core = None
   \<and> snd (len example_store example_core) = Inr 12"
  using len_sums_row_counts [OF example_reachable] example_reachable
  by (simp add: example_core_def example_store_def read_n_rows_def)

text \<open>
  C7 (the two cumulative arrays are non-decreasing over their resolved prefix, they are
  resolved from left to right, each newly resolved element queries the row-count
  collaborator once, a resolved value is never computed again, and both cumulative
  functions return 0 below index 0). After any sequence of reads and length queries: the
  resolved prefix of each array is sorted, and all that follows it is unknown; the
  queries of the row-count collaborator in the trace are one for each resolved element of
  the file array, in order; a further read or length query keeps both resolved prefixes
  as they are, can only lengthen them, and queries the collaborator once for each element
  that the file array newly resolves, in order; and \<^verbatim>\<open>_get_file_cumlen\<close> and
  \<^verbatim>\<open>_get_file_cumentries\<close> return 0 for a negative index and leave the iterator as it is.
\<close>

theorem cumulative_arrays_resolve_in_order:
  assumes "reachable st c"
  shows "sorted (take (resolved (file_map c)) (file_map c))
       \<and> sorted (take (resolved (entry_map c)) (entry_map c))
       \<and> drop (resolved (file_map c)) (file_map c)
           = replicate (length (lh5_files c) - resolved (file_map c)) q_max
       \<and> drop (resolved (entry_map c)) (entry_map c)
           = replicate (length (lh5_files c) - resolved (entry_map c)) q_max
       \<and> filter is_probe (trace c) = map (probe c) [0..<resolved (file_map c)]
       \<and> (\<forall>c'. c' = fst (len st c) \<or> (\<exists>i n. c' = fst (read_own st c i n)) \<longrightarrow>
             resolved (file_map c) \<le> resolved (file_map c')
           \<and> resolved (entry_map c) \<le> resolved (entry_map c')
           \<and> take (resolved (file_map c)) (file_map c') = take (resolved (file_map c)) (file_map c)
           \<and> take (resolved (entry_map c)) (entry_map c')
               = take (resolved (entry_map c)) (entry_map c)
           \<and> filter is_probe (trace c')
               = filter is_probe (trace c)
                   @ map (probe c) [resolved (file_map c)..<resolved (file_map c')])
       \<and> (\<forall>i<0. get_file_cumlen st c i = (c, Inr 0) \<and> get_file_cumentries st c i = (c, Inr 0))"
proof -
  from reachable_consistent [OF assms] have c: "consistent st c"
    and p: "filter is_probe (trace c) = map (probe c) [0..<resolved (file_map c)]" by simp_all
  have step: "resolved (file_map c) \<le> resolved (file_map c')
           \<and> resolved (entry_map c) \<le> resolved (entry_map c')
           \<and> take (resolved (file_map c)) (file_map c') = take (resolved (file_map c)) (file_map c)
           \<and> take (resolved (entry_map c)) (entry_map c')
               = take (resolved (entry_map c)) (entry_map c)
           \<and> filter is_probe (trace c')
               = filter is_probe (trace c)
                   @ map (probe c) [resolved (file_map c)..<resolved (file_map c')]"
    if "c' = fst (len st c) \<or> (\<exists>i n. c' = fst (read_own st c i n))" for c'
  proof -
    note a = step_advances [OF c that, of "lh5_buffer c"]
    have cb: "consistent st (bookkeeping c (lh5_buffer c))" using c by simp
    from advances_prefix [OF cb a] a show ?thesis
      by (simp add: advances_def)
  qed
  have neg: "get_file_cumlen st c i = (c, Inr 0) \<and> get_file_cumentries st c i = (c, Inr 0)"
    if "i < 0" for i
    using that by (simp add: get_file_cumlen_def get_file_cumentries.simps)
  from consistent_sorted [OF c] p step neg show ?thesis by blast
qed

theorem cumulative_arrays_resolve_in_order_witness:
  "reachable example_store example_core
   \<and> resolved (file_map example_core) = 1
   \<and> filter is_probe (trace example_core) = [ReadNRows ''g'' ''a'']
   \<and> fst (len example_store example_core) = example_resolved
   \<and> take 1 (file_map example_resolved) = take 1 (file_map example_core)
   \<and> filter is_probe (trace example_resolved) = [ReadNRows ''g'' ''a'', ReadNRows ''g'' ''b'']
   \<and> get_file_cumlen example_store example_core (- 1) = (example_core, Inr 0)"
  using cumulative_arrays_resolve_in_order [OF example_reachable] example_reachable example_len
  by (simp add: resolved_def example_core_def example_resolved_def q_max_def is_probe_def)

text \<open>
  C5 (for an iterator built with a global entry list whose values are in range, the
  per-file lists derived from it give back the same sorted global list). The global list
  \<open>gl\<close> of the iterator is the sorted input (\<^verbatim>\<open>__init__\<close> stores \<^verbatim>\<open>np.sort(entry_list)\<close>),
  every value is a row of the dataset, and the iterator is taken after any sequence of
  reads and length queries. Then \<^verbatim>\<open>get_global_entrylist\<close> returns \<open>gl\<close> and changes
  nothing; \<^verbatim>\<open>get_file_entrylist\<close> returns for each file the list \<open>elist_true\<close>; and on
  the iterator that holds these per-file lists and no global list,
  \<^verbatim>\<open>get_global_entrylist\<close> rebuilds \<open>gl\<close>, element for element.
\<close>

theorem global_entrylist_round_trip:
  assumes "reachable st c" and "global_entry_list c = Some gl"
    and "\<forall>x\<in>set gl. 0 \<le> x \<and> x < cumlen_true st c (length (lh5_files c))"
  shows "get_global_entrylist st c = (c, Inr (Some gl))
       \<and> (\<forall>j<length (lh5_files c).
            snd (get_file_entrylist st c (int j)) = Inr (elist_true st c j))
       \<and> snd (get_global_entrylist st (localized st c)) = Inr (Some gl)"
proof -
  from reachable_consistent [OF assms(1)] have c: "consistent st c" ..
  from reachable_selection [OF assms(1)] assms(2) have l: "local_entry_list c \<noteq> None" by simp
  have 1: "get_global_entrylist st c = (c, Inr (Some gl))"
    using assms(2) by (simp add: get_global_entrylist_def)
  have 2: "snd (get_file_entrylist st c (int j)) = Inr (elist_true st c j)"
    if "j < length (lh5_files c)" for j
    using cumentries_master(3) [OF c, of "int j"] that by auto
  from 1 2 localized_rebuilds [OF c l assms(2,3)] show ?thesis by blast
qed

theorem global_entrylist_round_trip_witness:
  "reachable example_store example_selected
   \<and> global_entry_list example_selected = Some [1, 3, 10]
   \<and> local_entry_list (localized example_store example_selected) = Some [Some [1, 3], Some [5]]
   \<and> snd (get_global_entrylist example_store (localized example_store example_selected))
       = Inr (Some [1, 3, 10])"
proof -
  have g: "global_entry_list example_selected = Some [1, 3, 10]"
    by (simp add: example_selected_def)
  note t = global_entrylist_round_trip [OF example_selected_reachable g example_selected_in_range]
  have l: "local_entry_list (localized example_store example_selected)
      = Some [Some [1, 3], Some [5]]"
    using example_selected_lists
    by (simp add: localized_def upt_0_2) (simp add: example_selected_def example_core_def)
  show ?thesis
    by (intro conjI example_selected_reachable g l t [THEN conjunct2, THEN conjunct2])
qed

section \<open>The partitioner\<close>

text \<open>
  C2 (the partitioner rebases every shard that does not start at element 0, and slices the
  local selection lists). Evaluated on the two-file dataset after \<^verbatim>\<open>len\<close> has resolved
  both cumulative arrays to \<^verbatim>\<open>[5, 12]\<close>, with two workers: the second shard starts at
  element 1, and line 598 tests \<^verbatim>\<open>i_files[i_worker] - 1 > 0\<close>, so its arrays stay
  \<^verbatim>\<open>[12]\<close> where the rebased value is \<^verbatim>\<open>[7]\<close>. With a selection the call raises
  \<^verbatim>\<open>AttributeError\<close> at line 585 and no shard is made.
\<close>

theorem generate_workers_skips_rebase_at_one:
  "fst (len example_store example_core) = example_resolved
   \<and> map (\<lambda>w. (lh5_files (core w), file_map (core w), entry_map (core w)))
        (projr (generate_workers (LH5Iterator example_resolved None) 2))
     = [([''a''], [5], [5]), ([''b''], [12], [12])]
   \<and> generate_workers (LH5Iterator example_selected None) 2 = Inl AttributeError"
proof (intro conjI)
  show "fst (len example_store example_core) = example_resolved"
    by (simp add: example_len)
  show "map (\<lambda>w. (lh5_files (core w), file_map (core w), entry_map (core w)))
        (projr (generate_workers (LH5Iterator example_resolved None) 2))
     = [([''a''], [5], [5]), ([''b''], [12], [12])]"
    by (simp add: generate_workers.simps upt_0_2 make_worker_def linspace_int_def py_slice_def
        slice_bound_def example_core_def example_resolved_def Let_def)
  show "generate_workers (LH5Iterator example_selected None) 2 = Inl AttributeError"
    by (simp add: generate_workers.simps example_core_def example_selected_def)
qed

section \<open>Entries out of range\<close>

text \<open>
  C6 (a file whose local selection has entries at or beyond its row count: a warning, and
  only the entries strictly below the row count are counted). Evaluated on file \<^verbatim>\<open>a\<close>
  (five rows) with the local list \<^verbatim>\<open>[2, 5, 6]\<close>: the warning is logged, but
  \<^verbatim>\<open>len\<close> is 2, not 1, because line 310 searches with side \<^verbatim>\<open>"right"\<close> and keeps the
  entry 5 that equals the row count.
\<close>

theorem cumentries_keeps_entry_at_row_count:
  "read_n_rows example_store ''g'' ''a'' = 5
   \<and> local_entry_list example_clamped = Some [Some [2, 5, 6]]
   \<and> snd (len example_store example_clamped) = Inr 2
   \<and> trace (fst (len example_store example_clamped)) = [ReadNRows ''g'' ''a'', Warning 0]"
  by (simp add: eval_simps example_clamped_def)

end
